theory Spec2Isabelle
  imports Complex_Main "HOL-Library.Word"
begin

section \<open>JavaScript strings\<close>

text \<open>
  A JavaScript string is a sequence of UTF-16 code units, so a string is a list of 16-bit
  words. \<open>js\<close> writes an ASCII literal of the source as such a list.
\<close>

type_synonym jschar = "16 word"
type_synonym jsstring = "jschar list"

definition js :: "string \<Rightarrow> jsstring" where
  "js s = map (\<lambda>c. word_of_nat (of_char c)) s"

text \<open>
  The code units that \<open>String.prototype.trim\<close> strips (and that \<open>parseInt\<close> skips):
  ECMAScript's WhiteSpace and LineTerminator productions.
\<close>

definition isWhiteSpace :: "jschar \<Rightarrow> bool" where
  "isWhiteSpace c = (c \<in> set [0x0009, 0x000A, 0x000B, 0x000C, 0x000D, 0x0020, 0x00A0,
      0x1680, 0x2000, 0x2001, 0x2002, 0x2003, 0x2004, 0x2005, 0x2006, 0x2007, 0x2008,
      0x2009, 0x200A, 0x2028, 0x2029, 0x202F, 0x205F, 0x3000, 0xFEFF])"

definition trimStart :: "jsstring \<Rightarrow> jsstring" where
  "trimStart s = dropWhile isWhiteSpace s"

definition trim :: "jsstring \<Rightarrow> jsstring" where
  "trim s = rev (trimStart (rev (trimStart s)))"

text \<open>\<open>s.startsWith(p)\<close> and \<open>s.includes(p)\<close> on strings.\<close>

fun startsWith :: "jsstring \<Rightarrow> jsstring \<Rightarrow> bool" where
  "startsWith s [] = True"
| "startsWith [] (p # ps) = False"
| "startsWith (c # cs) (p # ps) = (c = p \<and> startsWith cs ps)"

fun includes_str :: "jsstring \<Rightarrow> jsstring \<Rightarrow> bool" where
  "includes_str [] p = startsWith [] p"
| "includes_str (c # cs) p = (startsWith (c # cs) p \<or> includes_str cs p)"

text \<open>
  \<open>s.split(sep)\<close> for a separator of one code unit: the pieces between the separators,
  empty pieces kept; the split of the empty string is the one empty piece.
\<close>

fun split :: "jsstring \<Rightarrow> jschar \<Rightarrow> jsstring list" where
  "split [] sep = [] # []"
| "split (c # cs) sep =
     (if c = sep then [] # split cs sep
      else (case split cs sep of [] \<Rightarrow> [c] # [] | p # ps \<Rightarrow> (c # p) # ps))"

text \<open>\<open>xs.indexOf(x)\<close> on arrays: the first position of \<open>x\<close>, or \<open>-1\<close>.\<close>

fun indexOf_from :: "'a list \<Rightarrow> 'a \<Rightarrow> int \<Rightarrow> int" where
  "indexOf_from [] x i = - 1"
| "indexOf_from (y # ys) x i = (if y = x then i else indexOf_from ys x (i + 1))"

definition indexOf :: "'a list \<Rightarrow> 'a \<Rightarrow> int" where
  "indexOf xs x = indexOf_from xs x 0"

text \<open>\<open>xs.includes(x)\<close> on arrays of strings.\<close>

fun array_includes :: "'a list \<Rightarrow> 'a \<Rightarrow> bool" where
  "array_includes [] x = False"
| "array_includes (y # ys) x = (y = x \<or> array_includes ys x)"

section \<open>JavaScript values\<close>

text \<open>
  A number is an IEEE double: not-a-number, an infinity or a finite value. The finite
  values are carried as rationals (every double is one); \<open>-0\<close> is not told apart from \<open>0\<close>.
\<close>

datatype number = NaN | PosInfinity | NegInfinity | Finite rat

datatype json =
    JUndefined
  | JNull
  | JBool bool
  | JNum number
  | JStr jsstring
  | JArr "json list"
  | JObj "(jsstring \<times> json) list"

text \<open>ToBoolean: what \<open>if (v)\<close>, \<open>!v\<close>, \<open>a || b\<close> and \<open>a && b\<close> test.\<close>

fun truthy_number :: "number \<Rightarrow> bool" where
  "truthy_number NaN = False"
| "truthy_number (Finite q) = (q \<noteq> 0)"
| "truthy_number PosInfinity = True"
| "truthy_number NegInfinity = True"

fun truthy :: "json \<Rightarrow> bool" where
  "truthy JUndefined = False"
| "truthy JNull = False"
| "truthy (JBool b) = b"
| "truthy (JNum n) = truthy_number n"
| "truthy (JStr s) = (s \<noteq> [])"
| "truthy (JArr xs) = True"
| "truthy (JObj ps) = True"

text \<open>
  A value that is a string or \<open>undefined\<close> (an environment variable, a request header):
  \<open>None\<close> is \<open>undefined\<close>. It is truthy when it is a non-empty string.
\<close>

fun truthy_str :: "jsstring option \<Rightarrow> bool" where
  "truthy_str None = False"
| "truthy_str (Some s) = (s \<noteq> [])"

fun opt_json :: "jsstring option \<Rightarrow> json" where
  "opt_json None = JUndefined"
| "opt_json (Some s) = JStr s"

section \<open>Environment and logger\<close>

text \<open>
  \<open>process.env\<close>, restricted to the variables this module reads. \<open>isProduction\<close> is
  computed once when the module is loaded; the model reads it from the same environment.
\<close>

record env =
  NODE_ENV :: "jsstring option"
  ALLOWED_ORIGINS :: "jsstring option"
  MAX_LOGIN_ATTEMPTS :: "jsstring option"

definition isProduction :: "env \<Rightarrow> bool" where
  "isProduction e = (NODE_ENV e = Some (js ''production''))"

text \<open>A call \<open>logger.warn(message, meta)\<close> is returned as a value.\<close>

record log_entry =
  log_level :: jsstring
  log_message :: jsstring
  log_meta :: "(jsstring \<times> json) list"

definition logger_warn :: "jsstring \<Rightarrow> (jsstring \<times> json) list \<Rightarrow> log_entry" where
  "logger_warn msg m = \<lparr>log_level = js ''warn'', log_message = msg, log_meta = m\<rparr>"

section \<open>Origin validation\<close>

text \<open>
  The allow-list of \<open>corsConfig.origin\<close>: \<open>ALLOWED_ORIGINS\<close> split at commas and trimmed
  when the variable is a non-empty string, six literals otherwise.
\<close>

definition cors_allowedOrigins :: "env \<Rightarrow> jsstring list" where
  "cors_allowedOrigins e =
     (if truthy_str (ALLOWED_ORIGINS e)
      then map trim (split (the (ALLOWED_ORIGINS e)) 0x2C)
      else [js ''https://ajk-cleaning.onrender.com'',
            js ''http://localhost:3000'',
            js ''http://127.0.0.1:3000'',
            js ''http://localhost:3001'',
            js ''http://127.0.0.1:3001'',
            js ''https://www.ajkcleaners.de''])"

text \<open>
  \<open>corsConfig.origin(origin, callback)\<close>. The result is the log written and the call
  made to \<open>callback\<close>: \<open>Inr True\<close> for \<open>callback(null, true)\<close>, \<open>Inl msg\<close> for
  \<open>callback(new Error(msg))\<close>. An origin of \<open>None\<close> is a request with no Origin header.
\<close>

definition corsConfig_origin :: "env \<Rightarrow> jsstring option \<Rightarrow> log_entry list \<times> (jsstring + bool)" where
  "corsConfig_origin e origin =
     (if \<not> truthy_str origin then ([], Inr True)
      else
        let allowedOrigins = cors_allowedOrigins e; origin' = the origin in
        if indexOf allowedOrigins origin' \<noteq> - 1 \<or>
           (\<not> isProduction e \<and> includes_str origin' (js ''localhost''))
        then ([], Inr True)
        else ([logger_warn (js ''CORS blocked origin'')
                 [(js ''origin'', JStr origin'), (js ''ip'', JStr (js ''unknown''))]],
              Inl (js ''Not allowed by CORS'')))"

text \<open>The allow-list of \<open>validateWebSocketOrigin\<close>: the same variable, five literals otherwise.\<close>

definition ws_allowedOrigins :: "env \<Rightarrow> jsstring list" where
  "ws_allowedOrigins e =
     (if truthy_str (ALLOWED_ORIGINS e)
      then map trim (split (the (ALLOWED_ORIGINS e)) 0x2C)
      else [js ''https://ajk-cleaning.onrender.com'',
            js ''http://localhost:3000'',
            js ''http://127.0.0.1:3000'',
            js ''http://localhost:3001'',
            js ''http://127.0.0.1:3001''])"

definition validateWebSocketOrigin :: "env \<Rightarrow> jsstring option \<Rightarrow> bool" where
  "validateWebSocketOrigin e origin =
     (if \<not> truthy_str origin then True
      else
        let allowedOrigins = ws_allowedOrigins e; origin' = the origin in
        array_includes allowedOrigins origin' \<or>
        (\<not> isProduction e \<and> includes_str origin' (js ''localhost'')))"

text \<open>The decision of the CORS callback as a truth value: whether it allowed the origin.\<close>

definition cors_allows :: "env \<Rightarrow> jsstring option \<Rightarrow> bool" where
  "cors_allows e origin = (snd (corsConfig_origin e origin) = Inr True)"

section \<open>Rate-limit policies\<close>

text \<open>
  \<open>parseInt(string)\<close> with no radix: leading white space is skipped, then an optional sign,
  then an optional \<open>0x\<close>/\<open>0X\<close> prefix (which selects radix 16), then the longest run of
  digits of the radix; no digit gives \<open>NaN\<close>. The result is the mathematical value of the
  digits (the rounding of values beyond \<open>2^53\<close> to a double is left out).
\<close>

definition digitValue :: "jschar \<Rightarrow> nat option" where
  "digitValue c =
     (if 0x30 \<le> c \<and> c \<le> 0x39 then Some (unat c - 48)
      else if 0x61 \<le> c \<and> c \<le> 0x7A then Some (unat c - 87)
      else if 0x41 \<le> c \<and> c \<le> 0x5A then Some (unat c - 55)
      else None)"

definition isRadixDigit :: "nat \<Rightarrow> jschar \<Rightarrow> bool" where
  "isRadixDigit R c = (case digitValue c of None \<Rightarrow> False | Some d \<Rightarrow> d < R)"

definition digitsValue :: "nat \<Rightarrow> jsstring \<Rightarrow> nat" where
  "digitsValue R Z = foldl (\<lambda>acc c. acc * R + the (digitValue c)) 0 Z"

definition parseInt :: "jsstring \<Rightarrow> number" where
  "parseInt inputString =
     (let S = trimStart inputString;
          sign = (if startsWith S (js ''-'') then - 1 else 1);
          S1 = (if startsWith S (js ''+'') \<or> startsWith S (js ''-'') then tl S else S);
          hex = (startsWith S1 (js ''0x'') \<or> startsWith S1 (js ''0X''));
          R = (if hex then 16 else 10);
          S2 = (if hex then drop 2 S1 else S1);
          Z = takeWhile (isRadixDigit R) S2
      in if Z = [] then NaN else Finite (sign * of_nat (digitsValue R Z)))"

text \<open>ToString of a value that is a string or \<open>undefined\<close>, as \<open>parseInt\<close> applies it.\<close>

fun ToString :: "jsstring option \<Rightarrow> jsstring" where
  "ToString None = js ''undefined''"
| "ToString (Some s) = s"

text \<open>\<open>a || b\<close> on numbers and \<open>a && b\<close> on values.\<close>

definition number_or :: "number \<Rightarrow> number \<Rightarrow> number" where
  "number_or a b = (if truthy_number a then a else b)"

definition js_and :: "json \<Rightarrow> json \<Rightarrow> json" where
  "js_and a b = (if truthy a then b else a)"

text \<open>
  The part of an Express request that this module reads: \<open>req.ip\<close>, \<open>req.path\<close>,
  \<open>req.get('User-Agent')\<close>, \<open>req.session\<close> (\<open>None\<close> when there is no session object) and
  the three payloads \<open>req.body\<close>, \<open>req.query\<close>, \<open>req.params\<close>.
\<close>

record session =
  authenticated :: json

record request =
  ip :: "jsstring option"
  path :: jsstring
  userAgent :: "jsstring option"
  session :: "session option"
  body :: json
  query :: json
  params :: json

text \<open>\<open>req.session?.authenticated\<close> and \<open>req.body?.username\<close>.\<close>

definition session_authenticated :: "request \<Rightarrow> json" where
  "session_authenticated req =
     (case session req of None \<Rightarrow> JUndefined | Some s \<Rightarrow> authenticated s)"

fun member_username :: "json \<Rightarrow> json" where
  "member_username (JObj ps) =
     (case map_of ps (js ''username'') of None \<Rightarrow> JUndefined | Some v \<Rightarrow> v)"
| "member_username v = JUndefined"

text \<open>The response a handler builds with \<open>res.status(code).json(body)\<close>.\<close>

record response =
  status :: number
  json_body :: json

text \<open>
  The options object handed to \<open>rateLimit\<close>, the factory of the express-rate-limit
  package. The counting itself is that package's; this module only configures it.
  \<open>skip\<close> is \<open>None\<close> where the options give no skip function.
\<close>

record rate_limit_options =
  windowMs :: number
  max' :: number
  message :: json
  standardHeaders :: bool
  legacyHeaders :: bool
  skip :: "(request \<Rightarrow> json) option"
  handler :: "request \<Rightarrow> log_entry list \<times> response"

definition api_skip :: "request \<Rightarrow> json" where
  "api_skip req =
     js_and (JBool (startsWith (path req) (js ''/api/admin''))) (session_authenticated req)"

definition api_handler :: "request \<Rightarrow> log_entry list \<times> response" where
  "api_handler req =
     ([logger_warn (js ''Rate limit exceeded'')
         [(js ''ip'', opt_json (ip req)),
          (js ''path'', JStr (path req)),
          (js ''userAgent'', opt_json (userAgent req))]],
      \<lparr>status = Finite 429,
       json_body = JObj
         [(js ''error'', JStr (js ''Too many requests from this IP, please try again later.'')),
          (js ''retryAfter'', JStr (js ''15 minutes''))]\<rparr>)"

definition login_skip :: "request \<Rightarrow> json" where
  "login_skip req = session_authenticated req"

definition login_handler :: "request \<Rightarrow> log_entry list \<times> response" where
  "login_handler req =
     ([logger_warn (js ''Login rate limit exceeded'')
         [(js ''ip'', opt_json (ip req)),
          (js ''username'', member_username (body req)),
          (js ''userAgent'', opt_json (userAgent req))]],
      \<lparr>status = Finite 429,
       json_body = JObj
         [(js ''error'', JStr (js ''Too many login attempts, please try again later.'')),
          (js ''retryAfter'', JStr (js ''15 minutes''))]\<rparr>)"

definition form_handler :: "request \<Rightarrow> log_entry list \<times> response" where
  "form_handler req =
     ([logger_warn (js ''Form submission rate limit exceeded'')
         [(js ''ip'', opt_json (ip req)),
          (js ''userAgent'', opt_json (userAgent req))]],
      \<lparr>status = Finite 429,
       json_body = JObj
         [(js ''success'', JBool False),
          (js ''error'',
             JStr (js ''Too many form submissions, please wait before submitting again.''))]\<rparr>)"

record rate_limit_configs =
  api :: rate_limit_options
  login :: rate_limit_options
  form :: rate_limit_options

definition rateLimitConfigs :: "env \<Rightarrow> rate_limit_configs" where
  "rateLimitConfigs e =
     \<lparr>api = \<lparr>windowMs = Finite (15 * 60 * 1000),
              max' = Finite 100,
              message = JObj
                [(js ''error'', JStr (js ''Too many requests from this IP, please try again later.'')),
                 (js ''retryAfter'', JStr (js ''15 minutes''))],
              standardHeaders = True,
              legacyHeaders = False,
              skip = Some api_skip,
              handler = api_handler\<rparr>,
      login = \<lparr>windowMs = Finite (15 * 60 * 1000),
                max' = number_or (parseInt (ToString (MAX_LOGIN_ATTEMPTS e))) (Finite 5),
                message = JObj
                  [(js ''error'', JStr (js ''Too many login attempts, please try again later.'')),
                   (js ''retryAfter'', JStr (js ''15 minutes''))],
                standardHeaders = True,
                legacyHeaders = False,
                skip = Some login_skip,
                handler = login_handler\<rparr>,
      form = \<lparr>windowMs = Finite (60 * 1000),
               max' = Finite 3,
               message = JObj
                 [(js ''error'',
                     JStr (js ''Too many form submissions, please wait before submitting again.'')),
                  (js ''retryAfter'', JStr (js ''1 minute''))],
               standardHeaders = True,
               legacyHeaders = False,
               skip = None,
               handler = form_handler\<rparr>\<rparr>"

section \<open>Input sanitisation\<close>

text \<open>\<open>s.replace(/[<>]/g, '')\<close>: every \<open><\<close> (0x3C) and \<open>>\<close> (0x3E) is removed.\<close>

definition replace_angle :: "jsstring \<Rightarrow> jsstring" where
  "replace_angle s = filter (\<lambda>c. c \<noteq> 0x3C \<and> c \<noteq> 0x3E) s"

text \<open>
  \<open>sanitize\<close> on a payload tree. In a tree no object is reached twice, so assigning
  \<open>obj[key] = sanitize(obj[key])\<close> for every key of \<open>for (const key in obj)\<close> rebuilds the
  object (or array) with each value sanitised in its place. The sanitiser that assigns in
  place is modelled below, on a store of objects; theorem \<open>in_place_refines_tree\<close> shows
  that on every payload tree it computes what this function computes.
\<close>

fun sanitize :: "json \<Rightarrow> json" where
  "sanitize (JStr s) = JStr (replace_angle (trim s))"
| "sanitize (JArr xs) = JArr (map sanitize xs)"
| "sanitize (JObj ps) = JObj (map (\<lambda>(key, v). (key, sanitize v)) ps)"
| "sanitize obj = obj"

text \<open>The middleware: each of the three payloads is sanitised when it is truthy.\<close>

definition sanitizeInput :: "request \<Rightarrow> request" where
  "sanitizeInput req =
     (let req1 = (if truthy (body req) then req\<lparr>body := sanitize (body req)\<rparr> else req);
          req2 = (if truthy (query req1) then req1\<lparr>query := sanitize (query req1)\<rparr> else req1);
          req3 = (if truthy (params req2) then req2\<lparr>params := sanitize (params req2)\<rparr> else req2)
      in req3)"

subsection \<open>The sanitiser on the object graph\<close>

text \<open>
  \<open>sanitize\<close> as the code runs it, on values that may share or contain themselves: an
  object or array is a reference into a store of objects, each the list of its own
  enumerable properties in \<open>for ... in\<close> order (the keys of an array are its indices).
  \<open>typeof obj === 'object' && obj !== null\<close> holds of the references. An address
  that holds no object reads as the object with no property.
\<close>

datatype val = VUndefined | VNull | VBool bool | VNum number | VStr jsstring | VRef nat

type_synonym object = "(jsstring \<times> val) list"
type_synonym heap = "nat \<Rightarrow> object"

text \<open>\<open>obj[key]\<close> and \<open>obj[key] = v\<close>.\<close>

fun get_property :: "object \<Rightarrow> jsstring \<Rightarrow> val" where
  "get_property [] key = VUndefined"
| "get_property ((k, v) # ps) key = (if k = key then v else get_property ps key)"

fun set_property :: "object \<Rightarrow> jsstring \<Rightarrow> val \<Rightarrow> object" where
  "set_property [] key v = [(key, v)]"
| "set_property ((k, w) # ps) key v =
     (if k = key then (k, v) # ps else (k, w) # set_property ps key v)"

text \<open>
  A call of \<open>sanitize\<close> takes a frame of the engine's call stack and keeps it while its
  loop runs, so a call nested \<open>n\<close> levels deep holds \<open>n\<close> frames. \<open>stack\<close> is the number of
  calls of \<open>sanitize\<close> that the call stack can still hold; a call that finds no room makes
  the engine throw \<open>RangeError: Maximum call stack size exceeded\<close>. Nothing in the module
  catches it, so it ends every enclosing loop and call. It is the only error the code can
  raise: there is no check for a cycle.
\<close>

datatype error = RangeError

text \<open>
  The outcome of a call: \<open>Inr\<close> of the returned value and the store, or \<open>Inl\<close> of the
  error thrown and the store as the assignments made so far have left it.
\<close>

type_synonym outcome = "(error \<times> heap) + (val \<times> heap)"

text \<open>
  \<open>sanitize_heap stack obj h\<close> is the call \<open>sanitize(obj)\<close> in the store \<open>h\<close>, and
  \<open>for_in stack a keys h\<close> is its loop over the keys still to visit of the object at \<open>a\<close>,
  which ends in \<open>return obj\<close>. The loop reads \<open>obj[key]\<close> from the store as it is then,
  calls \<open>sanitize\<close> on it and assigns the result to \<open>obj[key]\<close>.
\<close>

function sanitize_heap :: "nat \<Rightarrow> val \<Rightarrow> heap \<Rightarrow> outcome"
  and for_in :: "nat \<Rightarrow> nat \<Rightarrow> jsstring list \<Rightarrow> heap \<Rightarrow> outcome" where
  "sanitize_heap 0 obj h = Inl (RangeError, h)"
| "sanitize_heap (Suc stack) obj h =
     (case obj of
        VStr s \<Rightarrow> Inr (VStr (replace_angle (trim s)), h)
      | VRef a \<Rightarrow> for_in stack a (map fst (h a)) h
      | _ \<Rightarrow> Inr (obj, h))"
| "for_in stack a [] h = Inr (VRef a, h)"
| "for_in stack a (key # rest) h =
     (case sanitize_heap stack (get_property (h a) key) h of
        Inl thrown \<Rightarrow> Inl thrown
      | Inr (v, h') \<Rightarrow> for_in stack a rest (h'(a := set_property (h' a) key v)))"
  by pat_completeness auto
termination
  by (relation "measures
        [\<lambda>x. case x of Inl (stack, obj, h) \<Rightarrow> 2 * stack
                       | Inr (stack, a, keys, h) \<Rightarrow> 2 * stack + 1,
         \<lambda>x. case x of Inl (stack, obj, h) \<Rightarrow> 0
                       | Inr (stack, a, keys, h) \<Rightarrow> length keys]") simp_all

text \<open>
  A value nests within \<open>n\<close> levels when every chain from it through properties, the value
  itself counted, has at most \<open>n\<close> values. A graph with a cycle nests within no \<open>n\<close>.
\<close>

primrec nested_within :: "nat \<Rightarrow> heap \<Rightarrow> val \<Rightarrow> bool" where
  "nested_within 0 h v = False"
| "nested_within (Suc n) h v =
     (case v of
        VRef a \<Rightarrow> list_all (\<lambda>key. nested_within n h (get_property (h a) key)) (map fst (h a))
      | _ \<Rightarrow> True)"

text \<open>
  A value is clean within \<open>n\<close> levels when it nests within \<open>n\<close> levels and no string reached
  from it holds \<open><\<close> or \<open>>\<close>.
\<close>

definition no_angle :: "jsstring \<Rightarrow> bool" where
  "no_angle s = (0x3C \<notin> set s \<and> 0x3E \<notin> set s)"

primrec clean_within :: "nat \<Rightarrow> heap \<Rightarrow> val \<Rightarrow> bool" where
  "clean_within 0 h v = False"
| "clean_within (Suc n) h v =
     (case v of
        VStr s \<Rightarrow> no_angle s
      | VRef a \<Rightarrow> list_all (\<lambda>key. clean_within n h (get_property (h a) key)) (map fst (h a))
      | _ \<Rightarrow> True)"

text \<open>
  \<open>child h v w\<close>: \<open>w\<close> is the value of a property of the object \<open>v\<close>. A cycle is reachable
  from \<open>v\<close> when some value reached from \<open>v\<close> reaches itself through one property or more.
\<close>

definition child :: "heap \<Rightarrow> val \<Rightarrow> val \<Rightarrow> bool" where
  "child h v w = (\<exists>a key. v = VRef a \<and> key \<in> set (map fst (h a)) \<and> w = get_property (h a) key)"

definition cyclic :: "heap \<Rightarrow> val \<Rightarrow> bool" where
  "cyclic h v = (\<exists>w. rtranclp (child h) v w \<and> tranclp (child h) w w)"

text \<open>
  What the assignments of the sanitiser do to a property and to the store: a property keeps
  its value or has a string replaced by a string without \<open><\<close> and \<open>>\<close>; every object
  keeps its keys. \<open>sanitized_value v v'\<close>: \<open>v'\<close> is what \<open>sanitize\<close> returns for \<open>v\<close>.
\<close>

definition slot_step :: "val \<Rightarrow> val \<Rightarrow> bool" where
  "slot_step v v' = (v' = v \<or> (\<exists>s s'. v = VStr s \<and> v' = VStr s' \<and> no_angle s'))"

definition heap_step :: "heap \<Rightarrow> heap \<Rightarrow> bool" where
  "heap_step h h' = (\<forall>a. map fst (h' a) = map fst (h a) \<and>
      (\<forall>key. slot_step (get_property (h a) key) (get_property (h' a) key)))"

definition sanitized_value :: "val \<Rightarrow> val \<Rightarrow> bool" where
  "sanitized_value v v' = (case v of VStr s \<Rightarrow> v' = VStr (replace_angle (trim s)) | _ \<Rightarrow> v' = v)"

section \<open>Observations used to state the properties\<close>

text \<open>The string leaves of a payload tree, in order, and the tree with its strings blanked.\<close>

fun string_leaves :: "json \<Rightarrow> jsstring list" where
  "string_leaves (JStr s) = [s]"
| "string_leaves (JArr xs) = concat (map string_leaves xs)"
| "string_leaves (JObj ps) = concat (map (\<lambda>(key, v). string_leaves v) ps)"
| "string_leaves v = []"

fun erase_strings :: "json \<Rightarrow> json" where
  "erase_strings (JStr s) = JStr []"
| "erase_strings (JArr xs) = JArr (map erase_strings xs)"
| "erase_strings (JObj ps) = JObj (map (\<lambda>(key, v). (key, erase_strings v)) ps)"
| "erase_strings v = v"

text \<open>Environments, requests and stores at which the properties are evaluated.\<close>

definition production_env :: env where
  "production_env =
     \<lparr>NODE_ENV = Some (js ''production''), ALLOWED_ORIGINS = None, MAX_LOGIN_ATTEMPTS = None\<rparr>"

definition development_env :: env where
  "development_env =
     \<lparr>NODE_ENV = None, ALLOWED_ORIGINS = Some (js ''https://a.example, https://b.example''),
      MAX_LOGIN_ATTEMPTS = Some (js ''abc'')\<rparr>"

definition admin_request :: request where
  "admin_request =
     \<lparr>ip = Some (js ''10.0.0.7''), path = js ''/api/admin/users'',
      userAgent = Some (js ''curl/8.0''), session = Some \<lparr>authenticated = JBool True\<rparr>,
      body = JObj [(js ''name'', JStr (js ''  <b>hi</b>  ''))],
      query = JObj [], params = JObj []\<rparr>"

definition nested_payload :: json where
  "nested_payload =
     JObj [(js ''name'', JStr (js ''  <b>hi</b>  '')),
           (js ''tags'', JArr [JStr (js ''<script>''), JNum (Finite 5), JNull])]"

definition self_heap :: heap where
  "self_heap = (\<lambda>a. [])(0 := [(js ''self'', VRef 0)])"

definition ring_heap :: heap where
  "ring_heap = (\<lambda>a. [])(0 := [(js ''next'', VRef 1)], 1 := [(js ''back'', VRef 0)])"

definition nested_heap :: heap where
  "nested_heap = (\<lambda>a. [])
     (0 := [(js ''name'', VStr (js ''  <b>hi</b>  '')), (js ''tags'', VRef 1)],
      1 := [(js ''0'', VStr (js ''<script>'')), (js ''1'', VNum (Finite 5)), (js ''2'', VNull)])"

section \<open>Payload trees in the store\<close>

text \<open>
  A payload tree laid out in the store, as a parser builds it: every object and array gets
  a fresh address, its children are laid out after it, and an array holds its elements
  under the keys \<open>0\<close>, \<open>1\<close>, ... (the decimal index as a string). \<open>alloc t n h\<close> lays
  \<open>t\<close> out from the first free address \<open>n\<close> and gives the value that stands for \<open>t\<close>, the
  next free address and the store. It relates the sanitiser on trees to the sanitiser that
  assigns in place.
\<close>

definition digit_char :: "nat \<Rightarrow> jschar" where
  "digit_char d = word_of_nat (48 + d)"

fun index_key :: "nat \<Rightarrow> jsstring" where
  "index_key i =
     (if i < 10 then [digit_char i] else index_key (i div 10) @ [digit_char (i mod 10)])"

function alloc :: "json \<Rightarrow> nat \<Rightarrow> heap \<Rightarrow> val \<times> nat \<times> heap"
  and alloc_list :: "json list \<Rightarrow> nat \<Rightarrow> heap \<Rightarrow> val list \<times> nat \<times> heap" where
  "alloc JUndefined n h = (VUndefined, n, h)"
| "alloc JNull n h = (VNull, n, h)"
| "alloc (JBool b) n h = (VBool b, n, h)"
| "alloc (JNum x) n h = (VNum x, n, h)"
| "alloc (JStr s) n h = (VStr s, n, h)"
| "alloc (JArr xs) n h =
     (case alloc_list xs (Suc n) h of
        (vs, n', h') \<Rightarrow> (VRef n, n', h'(n := zip (map index_key [0..<length xs]) vs)))"
| "alloc (JObj ps) n h =
     (case alloc_list (map snd ps) (Suc n) h of
        (vs, n', h') \<Rightarrow> (VRef n, n', h'(n := zip (map fst ps) vs)))"
| "alloc_list [] n h = ([], n, h)"
| "alloc_list (t # ts) n h =
     (case alloc t n h of
        (v, n1, h1) \<Rightarrow>
          (case alloc_list ts n1 h1 of (vs, n2, h2) \<Rightarrow> (v # vs, n2, h2)))"
  by pat_completeness auto
termination
proof (relation "measure (\<lambda>x. case x of Inl (t, n, h) \<Rightarrow> 2 * size t
                                      | Inr (ts, n, h) \<Rightarrow> 2 * size_list size ts + 1)")
  have le: "size_list size (map snd ps) \<le> size_list (size_prod (\<lambda>_. 0) size) ps"
    for ps :: "(jsstring \<times> json) list"
    by (induction ps) auto
  fix ps :: "(jsstring \<times> json) list" and n :: nat and h :: heap
  show "(Inr (map snd ps, Suc n, h), Inl (JObj ps, n, h))
       \<in> measure (\<lambda>x. case x of Inl (t, n, h) \<Rightarrow> 2 * size t
                                      | Inr (ts, n, h) \<Rightarrow> 2 * size_list size ts + 1)"
    using le[of ps] by simp
qed auto

text \<open>
  The height of a payload tree: the number of calls of \<open>sanitize\<close> nested at its deepest
  leaf, one for a scalar and one more than its highest child for an object or array.
\<close>

fun height :: "json \<Rightarrow> nat" where
  "height (JArr xs) = Suc (foldr max (map height xs) 0)"
| "height (JObj ps) = Suc (foldr max (map (\<lambda>(key, v). height v) ps) 0)"
| "height v = Suc 0"

text \<open>A payload tree is well formed when no object has the same key twice.\<close>

fun wf_json :: "json \<Rightarrow> bool" where
  "wf_json (JArr xs) = list_all wf_json xs"
| "wf_json (JObj ps) = (distinct (map fst ps) \<and> list_all (\<lambda>(key, v). wf_json v) ps)"
| "wf_json v = True"

text \<open>
  \<open>override h r n n'\<close> is \<open>h\<close> with the cells from \<open>n\<close> up to \<open>n'\<close> taken from \<open>r\<close>. A
  layout is regular when it writes the cells from its first address up to the next free one
  with contents that do not depend on the store it starts from. \<open>refines t\<close> says that the
  call \<open>sanitize(obj)\<close> on the layout of \<open>t\<close>, in any store that holds it and with room on
  the stack for the height of \<open>t\<close>, returns the value of the sanitised tree and leaves
  exactly the layout of the sanitised tree.
\<close>

definition override :: "heap \<Rightarrow> heap \<Rightarrow> nat \<Rightarrow> nat \<Rightarrow> heap" where
  "override h r n n' = (\<lambda>a. if n \<le> a \<and> a < n' then r a else h a)"

definition regular :: "json \<Rightarrow> bool" where
  "regular t = (\<forall>n h h' v n' h1. alloc t n h = (v, n', h1) \<longrightarrow>
      n \<le> n' \<and> alloc t n h' = (v, n', override h' h1 n n'))"

definition regular_list :: "json list \<Rightarrow> bool" where
  "regular_list ts = (\<forall>n h h' vs n' h1. alloc_list ts n h = (vs, n', h1) \<longrightarrow>
      n \<le> n' \<and> length vs = length ts \<and> alloc_list ts n h' = (vs, n', override h' h1 n n'))"

definition refines :: "json \<Rightarrow> bool" where
  "refines t = (\<forall>stack n h v n' h1 v' n'' h2 g.
      height t \<le> stack \<longrightarrow>
      alloc t n h = (v, n', h1) \<longrightarrow> alloc (sanitize t) n h = (v', n'', h2) \<longrightarrow>
      (\<forall>a. n \<le> a \<and> a < n' \<longrightarrow> g a = h1 a) \<longrightarrow>
      n'' = n' \<and> sanitize_heap stack v g = Inr (v', override g h2 n n'))"

section \<open>Evaluation and library facts\<close>

lemmas eval_str = js_def trim_def trimStart_def isWhiteSpace_def replace_angle_def

lemmas eval_parseInt = parseInt_def Let_def digitValue_def isRadixDigit_def digitsValue_def

lemma startsWith_iff: "startsWith s p \<longleftrightarrow> (\<exists>ss. s = p @ ss)"
  by (induction s p rule: startsWith.induct) auto

lemma includes_str_iff: "includes_str s p \<longleftrightarrow> (\<exists>ps ss. s = ps @ p @ ss)"
proof (induction s)
  case Nil
  show ?case by (cases p) auto
next
  case (Cons c cs)
  show ?case
  proof
    assume "includes_str (c # cs) p"
    then consider "startsWith (c # cs) p" | "includes_str cs p" by auto
    then show "\<exists>ps ss. c # cs = ps @ p @ ss"
    proof cases
      case 1
      then obtain ss where "c # cs = p @ ss" by (auto simp: startsWith_iff)
      then have "c # cs = [] @ p @ ss" by simp
      then show ?thesis by blast
    next
      case 2
      then obtain ps ss where "cs = ps @ p @ ss" using Cons.IH by auto
      then have "c # cs = (c # ps) @ p @ ss" by simp
      then show ?thesis by blast
    qed
  next
    assume "\<exists>ps ss. c # cs = ps @ p @ ss"
    then obtain ps ss where eq: "c # cs = ps @ p @ ss" by blast
    show "includes_str (c # cs) p"
    proof (cases ps)
      case Nil
      then have "startsWith (c # cs) p" using eq by (auto simp: startsWith_iff)
      then show ?thesis by simp
    next
      case (Cons a ps')
      then have "cs = ps' @ p @ ss" using eq by simp
      then have "includes_str cs p" using Cons.IH by blast
      then show ?thesis by simp
    qed
  qed
qed

lemma indexOf_from_found: "0 \<le> i \<Longrightarrow> (indexOf_from xs x i \<noteq> - 1) = (x \<in> set xs)"
  by (induction xs x i rule: indexOf_from.induct) auto

lemma indexOf_found: "(indexOf xs x \<noteq> - 1) = (x \<in> set xs)"
  by (simp add: indexOf_def indexOf_from_found)

lemma array_includes_iff: "array_includes xs x = (x \<in> set xs)"
  by (induction xs) auto

text \<open>
  \<open>trim\<close> removes a run of white space at each end and nothing else, and what is left
  neither starts nor ends with white space.
\<close>

lemma rev_trimmed_tail:
  "rev (dropWhile P (rev m)) @ rev (takeWhile P (rev m)) = m"
proof -
  have "rev (dropWhile P (rev m)) @ rev (takeWhile P (rev m)) =
        rev (takeWhile P (rev m) @ dropWhile P (rev m))"
    by (simp only: rev_append)
  also have "\<dots> = m" by simp
  finally show ?thesis .
qed

lemma trim_decomposition:
  "\<exists>pre post. s = pre @ trim s @ post \<and> list_all isWhiteSpace pre \<and> list_all isWhiteSpace post"
proof -
  define m where "m = dropWhile isWhiteSpace s"
  have s: "s = takeWhile isWhiteSpace s @ m" by (simp add: m_def)
  have m: "m = trim s @ rev (takeWhile isWhiteSpace (rev m))"
    using rev_trimmed_tail[of isWhiteSpace m] by (simp add: trim_def trimStart_def m_def)
  have "s = takeWhile isWhiteSpace s @ trim s @ rev (takeWhile isWhiteSpace (rev m))"
    using s m by simp
  moreover have "list_all isWhiteSpace (takeWhile isWhiteSpace s)"
    by (auto simp: list_all_iff dest: set_takeWhileD)
  moreover have "list_all isWhiteSpace (rev (takeWhile isWhiteSpace (rev m)))"
    by (auto simp: list_all_iff dest: set_takeWhileD)
  ultimately show ?thesis by blast
qed

lemma trim_ends:
  assumes "trim s \<noteq> []"
  shows "\<not> isWhiteSpace (hd (trim s)) \<and> \<not> isWhiteSpace (last (trim s))"
proof -
  define m where "m = dropWhile isWhiteSpace s"
  have t: "trim s = rev (dropWhile isWhiteSpace (rev m))"
    by (simp add: trim_def trimStart_def m_def)
  with assms have ne: "dropWhile isWhiteSpace (rev m) \<noteq> []" by simp
  then have "\<not> isWhiteSpace (hd (dropWhile isWhiteSpace (rev m)))" by (rule hd_dropWhile)
  then have l: "\<not> isWhiteSpace (last (trim s))" using ne by (simp add: t last_rev)
  have m: "m = trim s @ rev (takeWhile isWhiteSpace (rev m))"
    using rev_trimmed_tail[of isWhiteSpace m] by (simp add: t)
  with assms have "m \<noteq> []" by auto
  then have "\<not> isWhiteSpace (hd m)" unfolding m_def by (rule hd_dropWhile)
  moreover have "hd m = hd (trim s)" using m assms by (metis hd_append2)
  ultimately show ?thesis using l by simp
qed


lemma split_example:
  "split (js ''a, b,,c'') 0x2C = [js ''a'', js '' b'', [], js ''c'']"
  by (simp add: js_def)

lemma parseInt_examples:
  "parseInt (js ''10'') = Finite 10"
  "parseInt (js ''  42px'') = Finite 42"
  "parseInt (js ''0x1F'') = Finite 31"
  "parseInt (js ''-3'') = Finite (- 3)"
  "parseInt (js ''abc'') = NaN"
  "parseInt (js '''') = NaN"
  "parseInt (js ''0x'') = NaN"
  "parseInt (js ''undefined'') = NaN"
  by (simp_all add: eval_parseInt eval_str)

section \<open>Origin validation: the two enforcement points\<close>

lemma validateWebSocketOrigin_iff:
  "validateWebSocketOrigin e origin =
     (case origin of None \<Rightarrow> True
      | Some s \<Rightarrow> s = [] \<or> s \<in> set (ws_allowedOrigins e) \<or>
          (\<not> isProduction e \<and> (\<exists>ps ss. s = ps @ js ''localhost'' @ ss)))"
  by (simp add: validateWebSocketOrigin_def array_includes_iff includes_str_iff Let_def
      split: option.split)

lemma cors_allows_iff:
  "cors_allows e origin =
     (case origin of None \<Rightarrow> True
      | Some s \<Rightarrow> s = [] \<or> s \<in> set (cors_allowedOrigins e) \<or>
          (\<not> isProduction e \<and> (\<exists>ps ss. s = ps @ js ''localhost'' @ ss)))"
  by (simp add: cors_allows_def corsConfig_origin_def indexOf_found includes_str_iff Let_def
      split: option.split)

text \<open>
  Where the two decisions do agree: whenever \<open>ALLOWED_ORIGINS\<close> is set to a non-empty
  string, and at every origin other than the sixth literal of the CORS default list.
\<close>

lemma origin_decisions_agree_when_configured:
  "truthy_str (ALLOWED_ORIGINS e) \<Longrightarrow> cors_allows e origin = validateWebSocketOrigin e origin"
  by (simp add: cors_allows_def corsConfig_origin_def validateWebSocketOrigin_def
      cors_allowedOrigins_def ws_allowedOrigins_def indexOf_found array_includes_iff Let_def)

lemma origin_decisions_agree_elsewhere:
  "origin \<noteq> Some (js ''https://www.ajkcleaners.de'') \<Longrightarrow>
     cors_allows e origin = validateWebSocketOrigin e origin"
  by (cases origin)
     (auto simp add: cors_allows_def corsConfig_origin_def validateWebSocketOrigin_def
        cors_allowedOrigins_def ws_allowedOrigins_def indexOf_found array_includes_iff Let_def)

lemma origin_examples:
  "validateWebSocketOrigin development_env (Some (js ''http://localhost:4000''))"
  "\<not> validateWebSocketOrigin production_env (Some (js ''http://localhost:4000''))"
  "validateWebSocketOrigin development_env (Some (js ''https://b.example''))"
  "cors_allows production_env (Some (js ''http://127.0.0.1:3001''))"
  "corsConfig_origin production_env (Some (js ''https://evil.example'')) =
     ([logger_warn (js ''CORS blocked origin'')
         [(js ''origin'', JStr (js ''https://evil.example'')), (js ''ip'', JStr (js ''unknown''))]],
      Inl (js ''Not allowed by CORS''))"
  by (simp_all add: development_env_def production_env_def validateWebSocketOrigin_def
      cors_allows_def corsConfig_origin_def cors_allowedOrigins_def ws_allowedOrigins_def
      isProduction_def indexOf_def Let_def eval_str)

text \<open>
  C1. The claim: for every origin and mode the CORS decision and the decision of
  \<open>validateWebSocketOrigin\<close> are equal, and with \<open>ALLOWED_ORIGINS\<close> unset both resolve the
  same default allow-list. The code at the origin \<open>https://www.ajkcleaners.de\<close> with the
  variable unset, in production: the default list of the CORS callback holds this origin and
  the callback allows it, the default list of \<open>validateWebSocketOrigin\<close> does not hold it and
  the function returns false.
\<close>

theorem default_allow_lists_diverge:
  "cors_allows production_env (Some (js ''https://www.ajkcleaners.de'')) \<and>
   \<not> validateWebSocketOrigin production_env (Some (js ''https://www.ajkcleaners.de'')) \<and>
   cors_allowedOrigins production_env \<noteq> ws_allowedOrigins production_env"
  by (simp add: production_env_def cors_allows_def corsConfig_origin_def
      validateWebSocketOrigin_def cors_allowedOrigins_def ws_allowedOrigins_def
      isProduction_def indexOf_def js_def Let_def)

text \<open>
  C2, as stated, at an Origin header that is present and empty, in production with the
  default lists: the origin is no member of either allow-list and holds no \<open>localhost\<close>, and
  both validators allow it.
\<close>

theorem present_empty_origin_counterexample:
  "validateWebSocketOrigin production_env (Some []) \<and>
   [] \<notin> set (ws_allowedOrigins production_env) \<and>
   cors_allows production_env (Some []) \<and>
   [] \<notin> set (cors_allowedOrigins production_env) \<and>
   \<not> (\<not> isProduction production_env \<and> includes_str [] (js ''localhost''))"
  by (simp add: production_env_def cors_allows_def corsConfig_origin_def
      validateWebSocketOrigin_def cors_allowedOrigins_def ws_allowedOrigins_def
      isProduction_def js_def)

text \<open>
  C2, amended. For every input to either validator: an origin that is absent or the empty
  string is allowed; any other origin is allowed if and only if it is a literal member of
  that validator's allow-list, or the mode is not production and the origin contains the
  substring \<open>localhost\<close>.
\<close>

theorem origin_decision_characterised:
  "validateWebSocketOrigin e origin =
     (case origin of None \<Rightarrow> True
      | Some s \<Rightarrow> s = [] \<or> s \<in> set (ws_allowedOrigins e) \<or>
          (\<not> isProduction e \<and> (\<exists>ps ss. s = ps @ js ''localhost'' @ ss))) \<and>
   cors_allows e origin =
     (case origin of None \<Rightarrow> True
      | Some s \<Rightarrow> s = [] \<or> s \<in> set (cors_allowedOrigins e) \<or>
          (\<not> isProduction e \<and> (\<exists>ps ss. s = ps @ js ''localhost'' @ ss)))"
  using validateWebSocketOrigin_iff cors_allows_iff by blast

theorem origin_decision_characterised_witness:
  "validateWebSocketOrigin development_env (Some (js ''http://localhost:4000'')) \<and>
   cors_allows development_env (Some (js ''http://localhost:4000''))"
proof -
  have dev: "\<not> isProduction development_env"
    by (simp add: development_env_def isProduction_def)
  have "js ''http://localhost:4000'' = js ''http://'' @ js ''localhost'' @ js '':4000''"
    by (simp add: js_def)
  then have sub: "\<exists>ps ss. js ''http://localhost:4000'' = ps @ js ''localhost'' @ ss"
    by blast
  show ?thesis
    using origin_decision_characterised
      [of development_env "Some (js ''http://localhost:4000'')"] dev sub
    by simp
qed

text \<open>
  C10. The empty-string origin is treated exactly like an absent origin by the CORS origin
  callback and by \<open>validateWebSocketOrigin\<close>: both allow it, whatever the environment
  (mode and allow-list) is.
\<close>

theorem empty_origin_allowed:
  "validateWebSocketOrigin e (Some []) = True \<and>
   corsConfig_origin e (Some []) = ([], Inr True) \<and>
   validateWebSocketOrigin e (Some []) = validateWebSocketOrigin e None \<and>
   corsConfig_origin e (Some []) = corsConfig_origin e None"
  by (simp add: validateWebSocketOrigin_def corsConfig_origin_def)

theorem empty_origin_allowed_witness:
  "validateWebSocketOrigin production_env (Some []) \<and>
   corsConfig_origin development_env (Some []) = ([], Inr True)"
  using empty_origin_allowed[of production_env] empty_origin_allowed[of development_env]
  by simp

section \<open>Rate-limit policies\<close>

lemma truthy_js_and: "truthy (js_and a b) = (truthy a \<and> truthy b)"
  by (simp add: js_and_def)

lemma truthy_session_authenticated:
  "truthy (session_authenticated req) = (\<exists>s. session req = Some s \<and> truthy (authenticated s))"
  by (simp add: session_authenticated_def split: option.split)

text \<open>
  C5. The registry holds the three policies: api has a window of 15 minutes (900000 ms) and
  limit 100 and skips exactly when the path starts with \<open>/api/admin\<close> and the session is
  authenticated; login has the same window, the limit 5 when \<open>MAX_LOGIN_ATTEMPTS\<close> is unset,
  and skips exactly when the session is authenticated; form has a window of one minute
  (60000 ms), limit 3 and no skip function.
\<close>

theorem policy_registry:
  "windowMs (api (rateLimitConfigs e)) = Finite 900000 \<and>
   max' (api (rateLimitConfigs e)) = Finite 100 \<and>
   (\<exists>f. skip (api (rateLimitConfigs e)) = Some f \<and>
     (\<forall>req. truthy (f req) =
        (startsWith (path req) (js ''/api/admin'') \<and>
         (\<exists>s. session req = Some s \<and> truthy (authenticated s))))) \<and>
   windowMs (login (rateLimitConfigs e)) = Finite 900000 \<and>
   max' (login (rateLimitConfigs (e\<lparr>MAX_LOGIN_ATTEMPTS := None\<rparr>))) = Finite 5 \<and>
   (\<exists>f. skip (login (rateLimitConfigs e)) = Some f \<and>
     (\<forall>req. truthy (f req) = (\<exists>s. session req = Some s \<and> truthy (authenticated s)))) \<and>
   windowMs (form (rateLimitConfigs e)) = Finite 60000 \<and>
   max' (form (rateLimitConfigs e)) = Finite 3 \<and>
   skip (form (rateLimitConfigs e)) = None"
  by (simp add: rateLimitConfigs_def api_skip_def login_skip_def truthy_js_and
      truthy_session_authenticated parseInt_examples number_or_def)

theorem policy_registry_witness:
  "\<exists>f. skip (api (rateLimitConfigs production_env)) = Some f \<and> truthy (f admin_request)"
proof -
  from policy_registry[of production_env] obtain f where
    f: "skip (api (rateLimitConfigs production_env)) = Some f"
    and iff: "\<And>req. truthy (f req) =
        (startsWith (path req) (js ''/api/admin'') \<and>
         (\<exists>s. session req = Some s \<and> truthy (authenticated s)))"
    by blast
  have "truthy (f admin_request)"
    unfolding iff by (simp add: admin_request_def js_def)
  with f show ?thesis by blast
qed

text \<open>
  C6, as stated, at \<open>MAX_LOGIN_ATTEMPTS = abc\<close>: the value does not parse (\<open>parseInt\<close>
  gives \<open>NaN\<close>), and the configuration is built all the same, with the login limit 5.
\<close>

theorem unparsable_limit_counterexample:
  "parseInt (ToString (MAX_LOGIN_ATTEMPTS development_env)) = NaN \<and>
   max' (login (rateLimitConfigs development_env)) = Finite 5"
  by (simp add: development_env_def rateLimitConfigs_def number_or_def eval_parseInt eval_str)

text \<open>
  C6, amended. An unparsable limit is no startup error: for every value of
  \<open>MAX_LOGIN_ATTEMPTS\<close> that does not parse as a number, the configuration is built and the
  login limit is the default 5.
\<close>

theorem unparsable_limit_defaults:
  "parseInt (ToString (MAX_LOGIN_ATTEMPTS e)) = NaN \<Longrightarrow>
     max' (login (rateLimitConfigs e)) = Finite 5"
  by (simp add: rateLimitConfigs_def number_or_def)

theorem unparsable_limit_defaults_witness:
  "parseInt (ToString (MAX_LOGIN_ATTEMPTS (production_env\<lparr>MAX_LOGIN_ATTEMPTS := Some (js ''ten'')\<rparr>))) = NaN \<and>
   max' (login (rateLimitConfigs (production_env\<lparr>MAX_LOGIN_ATTEMPTS := Some (js ''ten'')\<rparr>))) = Finite 5"
proof -
  have h: "parseInt (ToString (MAX_LOGIN_ATTEMPTS
      (production_env\<lparr>MAX_LOGIN_ATTEMPTS := Some (js ''ten'')\<rparr>))) = NaN"
    by (simp add: eval_parseInt eval_str)
  from unparsable_limit_defaults[OF h] h show ?thesis by simp
qed

text \<open>What the login limit is for values that do parse: the parsed number, unless it is 0.\<close>

lemma login_limit_examples:
  "max' (login (rateLimitConfigs (e\<lparr>MAX_LOGIN_ATTEMPTS := Some (js ''10'')\<rparr>))) = Finite 10"
  "max' (login (rateLimitConfigs (e\<lparr>MAX_LOGIN_ATTEMPTS := Some (js ''0'')\<rparr>))) = Finite 5"
  "max' (login (rateLimitConfigs (e\<lparr>MAX_LOGIN_ATTEMPTS := Some (js ''-3'')\<rparr>))) = Finite (- 3)"
  by (simp_all add: rateLimitConfigs_def number_or_def eval_parseInt eval_str)

text \<open>
  C7. Every rejection handler answers with status 429. The api and login handlers send a
  body of the two string fields \<open>error\<close> and \<open>retryAfter\<close>; the form handler sends
  \<open>success: false\<close> and a string field \<open>error\<close>, and no \<open>retryAfter\<close>.
\<close>

theorem rejection_responses:
  "status (snd (handler (api (rateLimitConfigs e)) req)) = Finite 429 \<and>
   (\<exists>err after. json_body (snd (handler (api (rateLimitConfigs e)) req)) =
      JObj [(js ''error'', JStr err), (js ''retryAfter'', JStr after)]) \<and>
   status (snd (handler (login (rateLimitConfigs e)) req)) = Finite 429 \<and>
   (\<exists>err after. json_body (snd (handler (login (rateLimitConfigs e)) req)) =
      JObj [(js ''error'', JStr err), (js ''retryAfter'', JStr after)]) \<and>
   status (snd (handler (form (rateLimitConfigs e)) req)) = Finite 429 \<and>
   (\<exists>err. json_body (snd (handler (form (rateLimitConfigs e)) req)) =
      JObj [(js ''success'', JBool False), (js ''error'', JStr err)]) \<and>
   js ''retryAfter'' \<notin> {js ''success'', js ''error''}"
  by (simp add: rateLimitConfigs_def api_handler_def login_handler_def form_handler_def)
     (simp add: js_def)

theorem rejection_responses_witness:
  "status (snd (handler (login (rateLimitConfigs production_env)) admin_request)) = Finite 429 \<and>
   status (snd (handler (form (rateLimitConfigs production_env)) admin_request)) = Finite 429"
  using rejection_responses[of production_env admin_request] by simp

lemma login_rejection_example:
  "handler (login (rateLimitConfigs production_env)) admin_request =
     ([logger_warn (js ''Login rate limit exceeded'')
         [(js ''ip'', JStr (js ''10.0.0.7'')),
          (js ''username'', JUndefined),
          (js ''userAgent'', JStr (js ''curl/8.0''))]],
      \<lparr>status = Finite 429,
       json_body = JObj
         [(js ''error'', JStr (js ''Too many login attempts, please try again later.'')),
          (js ''retryAfter'', JStr (js ''15 minutes''))]\<rparr>)"
  by (simp add: rateLimitConfigs_def login_handler_def admin_request_def js_def)

section \<open>The sanitiser on payload trees\<close>

lemma string_leaves_sanitize:
  "string_leaves (sanitize t) = map (\<lambda>s. replace_angle (trim s)) (string_leaves t)"
proof (induction t rule: sanitize.induct)
  case (2 xs)
  then show ?case by (simp add: map_concat comp_def cong: map_cong)
next
  case (3 ps)
  have "string_leaves (sanitize (snd p)) = map (\<lambda>s. replace_angle (trim s)) (string_leaves (snd p))"
    if "p \<in> set ps" for p
    using "3" that by (cases p) auto
  then show ?case by (simp add: map_concat comp_def case_prod_unfold cong: map_cong)
qed simp_all

lemma erase_strings_sanitize: "erase_strings (sanitize t) = erase_strings t"
proof (induction t rule: sanitize.induct)
  case (2 xs)
  then show ?case by simp
next
  case (3 ps)
  have "erase_strings (sanitize (snd p)) = erase_strings (snd p)" if "p \<in> set ps" for p
    using "3" that by (cases p) auto
  then show ?case by (simp add: comp_def case_prod_unfold)
qed simp_all

lemma sanitize_nested_example:
  "sanitize nested_payload =
     JObj [(js ''name'', JStr (js ''bhi/b'')),
           (js ''tags'', JArr [JStr (js ''script''), JNum (Finite 5), JNull])]"
  by (simp add: nested_payload_def eval_str)

text \<open>A falsy payload is one that \<open>sanitize\<close> leaves as it is, so the guards of the
  middleware change nothing: each payload of the request is replaced by its sanitised value.\<close>

lemma sanitize_falsy: "\<not> truthy v \<Longrightarrow> sanitize v = v"
  by (cases v) (simp_all add: eval_str)

lemma sanitizeInput_payloads:
  "body (sanitizeInput req) = sanitize (body req) \<and>
   query (sanitizeInput req) = sanitize (query req) \<and>
   params (sanitizeInput req) = sanitize (params req)"
  by (simp add: sanitizeInput_def Let_def sanitize_falsy)

text \<open>
  C3. For every payload tree, the value the sanitiser returns has no string leaf with the
  character \<open><\<close> (0x3C) or \<open>>\<close> (0x3E); each string leaf of the input is trimmed and then
  loses every \<open><\<close> and \<open>>\<close>; and the input \<open>{"name": "  <b>hi</b>  "}\<close> yields
  \<open>{"name": "bhi/b"}\<close>.
\<close>

theorem sanitize_removes_angle_brackets:
  "(\<forall>s \<in> set (string_leaves (sanitize t)). 0x3C \<notin> set s \<and> 0x3E \<notin> set s) \<and>
   string_leaves (sanitize t) = map (\<lambda>s. replace_angle (trim s)) (string_leaves t) \<and>
   replace_angle (trim s') = filter (\<lambda>c. c \<noteq> 0x3C \<and> c \<noteq> 0x3E) (trim s') \<and>
   sanitize (JObj [(js ''name'', JStr (js ''  <b>hi</b>  ''))]) =
     JObj [(js ''name'', JStr (js ''bhi/b''))]"
proof (intro conjI)
  show "\<forall>s \<in> set (string_leaves (sanitize t)). 0x3C \<notin> set s \<and> 0x3E \<notin> set s"
    by (auto simp: string_leaves_sanitize replace_angle_def)
  show "string_leaves (sanitize t) = map (\<lambda>s. replace_angle (trim s)) (string_leaves t)"
    by (rule string_leaves_sanitize)
  show "replace_angle (trim s') = filter (\<lambda>c. c \<noteq> 0x3C \<and> c \<noteq> 0x3E) (trim s')"
    by (simp add: replace_angle_def)
  show "sanitize (JObj [(js ''name'', JStr (js ''  <b>hi</b>  ''))]) =
     JObj [(js ''name'', JStr (js ''bhi/b''))]"
    by (simp add: eval_str)
qed

theorem sanitize_removes_angle_brackets_witness:
  "js ''script'' \<in> set (string_leaves (sanitize nested_payload)) \<and>
   0x3C \<notin> set (js ''script'') \<and> 0x3E \<notin> set (js ''script'')"
proof -
  have mem: "js ''script'' \<in> set (string_leaves (sanitize nested_payload))"
    by (simp add: sanitize_nested_example)
  from sanitize_removes_angle_brackets[of nested_payload] mem show ?thesis by blast
qed

text \<open>
  C8. For every payload tree the sanitiser changes string leaves only: the tree with its
  strings blanked is the same before and after; a mapping keeps its keys, in order; a
  sequence keeps its length and each element is the sanitised element at the same position;
  a number, a boolean, null and undefined are returned unchanged.
\<close>

theorem sanitize_frame:
  "erase_strings (sanitize t) = erase_strings t \<and>
   (\<exists>ps'. sanitize (JObj ps) = JObj ps' \<and> map fst ps' = map fst ps) \<and>
   (\<exists>ys. sanitize (JArr xs) = JArr ys \<and> length ys = length xs \<and>
      (\<forall>i < length xs. ys ! i = sanitize (xs ! i))) \<and>
   sanitize (JNum n) = JNum n \<and> sanitize (JBool b) = JBool b \<and>
   sanitize JNull = JNull \<and> sanitize JUndefined = JUndefined"
  by (simp add: erase_strings_sanitize case_prod_unfold comp_def)

theorem sanitize_frame_witness:
  "\<exists>ys. sanitize (JArr [JStr (js ''<script>''), JNum (Finite 5), JNull]) = JArr ys \<and>
     length ys = 3 \<and> ys ! 1 = JNum (Finite 5) \<and> ys ! 2 = JNull"
proof -
  from sanitize_frame[of undefined undefined "[JStr (js ''<script>''), JNum (Finite 5), JNull]"
      undefined undefined]
  obtain ys where ys: "sanitize (JArr [JStr (js ''<script>''), JNum (Finite 5), JNull]) = JArr ys"
    and len: "length ys = length [JStr (js ''<script>''), JNum (Finite 5), JNull]"
    and nth: "\<forall>i < length [JStr (js ''<script>''), JNum (Finite 5), JNull].
        ys ! i = sanitize ([JStr (js ''<script>''), JNum (Finite 5), JNull] ! i)"
    by blast
  from nth have "ys ! 1 = sanitize ([JStr (js ''<script>''), JNum (Finite 5), JNull] ! 1)"
    by simp
  moreover from nth have "ys ! 2 = sanitize ([JStr (js ''<script>''), JNum (Finite 5), JNull] ! 2)"
    by simp
  ultimately show ?thesis using ys len by simp
qed

section \<open>The sanitiser on the object graph: how a call ends\<close>

text \<open>The assignments of the sanitiser keep the shape of the store.\<close>

lemma slot_step_refl: "slot_step v v"
  by (simp add: slot_step_def)

lemma slot_step_trans: "slot_step u v \<Longrightarrow> slot_step v w \<Longrightarrow> slot_step u w"
  by (auto simp: slot_step_def)

lemma slot_step_ref: "slot_step (VRef a) w \<Longrightarrow> w = VRef a"
  by (auto simp: slot_step_def)

lemma slot_step_sanitized: "slot_step x y \<Longrightarrow> sanitized_value x v' \<Longrightarrow> slot_step y v'"
  by (cases x) (auto simp: slot_step_def sanitized_value_def no_angle_def replace_angle_def)

lemma heap_step_refl: "heap_step h h"
  by (simp add: heap_step_def slot_step_refl)

lemma heap_step_trans: "heap_step h1 h2 \<Longrightarrow> heap_step h2 h3 \<Longrightarrow> heap_step h1 h3"
  unfolding heap_step_def by (metis slot_step_trans)

lemma heap_step_keys: "heap_step h h' \<Longrightarrow> map fst (h' a) = map fst (h a)"
  by (simp add: heap_step_def)

lemma heap_step_slot: "heap_step h h' \<Longrightarrow> slot_step (get_property (h a) key) (get_property (h' a) key)"
  by (simp add: heap_step_def)

lemma keys_set_property:
  "key \<in> set (map fst ps) \<Longrightarrow> map fst (set_property ps key v) = map fst ps"
  by (induction ps key v rule: set_property.induct) auto

lemma get_set_property:
  "get_property (set_property ps key v) k = (if k = key then v else get_property ps k)"
  by (induction ps key v rule: set_property.induct) auto

lemma heap_step_update:
  assumes "key \<in> set (map fst (h a))" "slot_step (get_property (h a) key) v"
  shows "heap_step h (h(a := set_property (h a) key v))"
  using assms by (auto simp: heap_step_def keys_set_property get_set_property slot_step_refl)

lemma nested_step:
  "heap_step h h' \<Longrightarrow> slot_step v w \<Longrightarrow> nested_within n h' w = nested_within n h v"
proof (induction n arbitrary: v w)
  case 0
  show ?case by simp
next
  case (Suc n)
  show ?case
  proof (cases v)
    case (VRef a)
    with Suc.prems(2) have w: "w = VRef a" by (simp add: slot_step_ref)
    have "nested_within n h' (get_property (h' a) key) = nested_within n h (get_property (h a) key)"
      for key
      using Suc.IH[OF Suc.prems(1) heap_step_slot[OF Suc.prems(1)]] .
    then show ?thesis using VRef w heap_step_keys[OF Suc.prems(1), of a] by simp
  qed (use Suc.prems(2) in \<open>auto simp: slot_step_def\<close>)
qed

lemma clean_step:
  "clean_within n h v \<Longrightarrow> heap_step h h' \<Longrightarrow> slot_step v w \<Longrightarrow> clean_within n h' w"
proof (induction n arbitrary: v w)
  case 0
  then show ?case by simp
next
  case (Suc n)
  show ?case
  proof (cases v)
    case (VRef a)
    with Suc.prems(3) have w: "w = VRef a" by (simp add: slot_step_ref)
    have "clean_within n h' (get_property (h' a) key)" if "key \<in> set (map fst (h a))" for key
    proof -
      from Suc.prems(1) VRef that have "clean_within n h (get_property (h a) key)"
        by (auto simp: list_all_iff)
      then show ?thesis using Suc.IH Suc.prems(2) heap_step_slot[OF Suc.prems(2)] by blast
    qed
    then show ?thesis using w heap_step_keys[OF Suc.prems(2), of a] by (auto simp: list_all_iff)
  qed (use Suc.prems(1,3) in \<open>auto simp: slot_step_def\<close>)
qed

lemma clean_nested: "clean_within n h v \<Longrightarrow> nested_within n h v"
proof (induction n arbitrary: v)
  case 0
  then show ?case by simp
next
  case (Suc n)
  then show ?case by (cases v) (auto simp: list_all_iff)
qed

text \<open>
  A call on a value that nests within the stack returns: each nested call returns, and
  each assignment keeps the shape of the store, so the loop goes on to its end. What it
  returns is clean.
\<close>

lemma sanitize_heap_returns:
  "nested_within stack h v \<Longrightarrow>
     \<exists>v' h'. sanitize_heap stack v h = Inr (v', h') \<and> heap_step h h' \<and>
        sanitized_value v v' \<and> clean_within stack h' v'"
proof (induction stack arbitrary: h v)
  case 0
  then show ?case by simp
next
  case (Suc stack)
  show ?case
  proof (cases v)
    case (VRef a)
    have loop: "set keys \<subseteq> set (map fst (h a)) \<Longrightarrow> heap_step h h1 \<Longrightarrow>
        \<exists>h'. for_in stack a keys h1 = Inr (VRef a, h') \<and> heap_step h1 h' \<and>
          (\<forall>key \<in> set keys. clean_within stack h' (get_property (h' a) key))" for keys h1
    proof (induction keys arbitrary: h1)
      case Nil
      then show ?case by (simp add: heap_step_refl)
    next
      case (Cons key rest)
      from Cons.prems(1) have kin: "key \<in> set (map fst (h a))" by simp
      from Suc.prems VRef kin have "nested_within stack h (get_property (h a) key)"
        by (auto simp: list_all_iff)
      then have "nested_within stack h1 (get_property (h1 a) key)"
        using nested_step[OF Cons.prems(2) heap_step_slot[OF Cons.prems(2)]] by simp
      from Suc.IH[OF this] obtain v' h2 where
        run1: "sanitize_heap stack (get_property (h1 a) key) h1 = Inr (v', h2)"
        and st12: "heap_step h1 h2" and sv: "sanitized_value (get_property (h1 a) key) v'"
        and cl: "clean_within stack h2 v'"
        by blast
      have k2: "key \<in> set (map fst (h2 a))"
        using kin heap_step_keys[OF Cons.prems(2)] heap_step_keys[OF st12] by simp
      have "slot_step (get_property (h2 a) key) v'"
        using slot_step_sanitized[OF heap_step_slot[OF st12] sv] .
      with k2 have st23: "heap_step h2 (h2(a := set_property (h2 a) key v'))"
        by (rule heap_step_update)
      define h3 where "h3 = h2(a := set_property (h2 a) key v')"
      have st13: "heap_step h1 h3" using st12 st23 unfolding h3_def by (rule heap_step_trans)
      have st03: "heap_step h h3" using Cons.prems(2) st13 by (rule heap_step_trans)
      from Cons.prems(1) have "set rest \<subseteq> set (map fst (h a))" by simp
      from Cons.IH[OF this st03] obtain h' where
        run2: "for_in stack a rest h3 = Inr (VRef a, h')" and st3: "heap_step h3 h'"
        and rest: "\<forall>key \<in> set rest. clean_within stack h' (get_property (h' a) key)"
        by blast
      have "clean_within stack h3 v'"
        using clean_step[OF cl st23 slot_step_refl] by (simp add: h3_def)
      moreover have "get_property (h3 a) key = v'" by (simp add: h3_def get_set_property)
      ultimately have "clean_within stack h' (get_property (h' a) key)"
        using clean_step[OF _ st3 heap_step_slot[OF st3, of a key]] by simp
      moreover have "for_in stack a (key # rest) h1 = Inr (VRef a, h')"
        using run1 run2 by (simp add: h3_def)
      moreover have "heap_step h1 h'" using st13 st3 by (rule heap_step_trans)
      ultimately show ?case using rest by auto
    qed
    from loop[of "map fst (h a)" h] obtain h' where
      r: "for_in stack a (map fst (h a)) h = Inr (VRef a, h')" and st: "heap_step h h'"
      and cl: "\<forall>key \<in> set (map fst (h a)). clean_within stack h' (get_property (h' a) key)"
      by (auto simp: heap_step_refl)
    have "clean_within (Suc stack) h' (VRef a)"
      using cl heap_step_keys[OF st, of a] by (simp add: list_all_iff)
    then show ?thesis using VRef r st by (simp add: sanitized_value_def)
  qed (auto simp: heap_step_refl sanitized_value_def no_angle_def replace_angle_def)
qed

text \<open>
  A call on a value that does not nest within the stack overflows it: the loop reaches a
  property whose value does not nest within what is left.
\<close>

lemma sanitize_heap_throws:
  "\<not> nested_within stack h v \<Longrightarrow> \<exists>h'. sanitize_heap stack v h = Inl (RangeError, h')"
proof (induction stack arbitrary: h v)
  case 0
  then show ?case by simp
next
  case (Suc stack)
  from Suc.prems obtain a where v: "v = VRef a" by (cases v) auto
  with Suc.prems have bad: "\<exists>key \<in> set (map fst (h a)). \<not> nested_within stack h (get_property (h a) key)"
    by (auto simp: list_all_iff)
  have loop: "set keys \<subseteq> set (map fst (h a)) \<Longrightarrow>
      \<exists>key \<in> set keys. \<not> nested_within stack h (get_property (h a) key) \<Longrightarrow>
      heap_step h h1 \<Longrightarrow> \<exists>h'. for_in stack a keys h1 = Inl (RangeError, h')" for keys h1
  proof (induction keys arbitrary: h1)
    case Nil
    then show ?case by simp
  next
    case (Cons key rest)
    from Cons.prems(1) have kin: "key \<in> set (map fst (h a))" by simp
    have same: "nested_within stack h1 (get_property (h1 a) key) =
        nested_within stack h (get_property (h a) key)"
      using nested_step[OF Cons.prems(3) heap_step_slot[OF Cons.prems(3)]] .
    show ?case
    proof (cases "nested_within stack h (get_property (h a) key)")
      case False
      with same have "\<not> nested_within stack h1 (get_property (h1 a) key)" by simp
      from Suc.IH[OF this] show ?thesis by auto
    next
      case True
      with same have "nested_within stack h1 (get_property (h1 a) key)" by simp
      from sanitize_heap_returns[OF this] obtain v' h2 where
        run1: "sanitize_heap stack (get_property (h1 a) key) h1 = Inr (v', h2)"
        and st12: "heap_step h1 h2" and sv: "sanitized_value (get_property (h1 a) key) v'"
        by blast
      have sl: "slot_step (get_property (h2 a) key) v'"
        using slot_step_sanitized[OF heap_step_slot[OF st12] sv] .
      have "key \<in> set (map fst (h2 a))"
        using kin heap_step_keys[OF Cons.prems(3)] heap_step_keys[OF st12] by simp
      then have "heap_step h2 (h2(a := set_property (h2 a) key v'))"
        using sl by (rule heap_step_update)
      with st12 have "heap_step h1 (h2(a := set_property (h2 a) key v'))"
        by (rule heap_step_trans)
      with Cons.prems(3) have st: "heap_step h (h2(a := set_property (h2 a) key v'))"
        by (rule heap_step_trans)
      from Cons.prems(2) True
      have bad': "\<exists>key \<in> set rest. \<not> nested_within stack h (get_property (h a) key)"
        by auto
      from Cons.prems(1) have sub: "set rest \<subseteq> set (map fst (h a))" by simp
      from Cons.IH[OF sub bad' st] obtain h' where
        "for_in stack a rest (h2(a := set_property (h2 a) key v')) = Inl (RangeError, h')"
        by blast
      with run1 have "for_in stack a (key # rest) h1 = Inl (RangeError, h')"
        by (simp del: fun_upd_apply)
      then show ?thesis by blast
    qed
  qed
  from loop[OF subset_refl bad heap_step_refl] v show ?case by simp
qed

text \<open>A value from which a cycle is reachable nests within no depth.\<close>

lemma nested_mono: "nested_within n h v \<Longrightarrow> n \<le> m \<Longrightarrow> nested_within m h v"
proof (induction n arbitrary: m v)
  case 0
  then show ?case by simp
next
  case (Suc n)
  from Suc.prems(2) obtain m' where m: "m = Suc m'" and le: "n \<le> m'" by (cases m) auto
  show ?case
  proof (cases v)
    case (VRef a)
    with Suc.prems(1) have "\<forall>key \<in> set (map fst (h a)). nested_within n h (get_property (h a) key)"
      by (simp add: list_all_iff)
    with Suc.IH le have "\<forall>key \<in> set (map fst (h a)). nested_within m' h (get_property (h a) key)"
      by blast
    with VRef m show ?thesis by (simp add: list_all_iff)
  qed (simp_all add: m)
qed

lemma nested_child:
  assumes "nested_within (Suc n) h v" "child h v w"
  shows "nested_within n h w"
proof -
  from assms(2) obtain a key where v: "v = VRef a" and key: "key \<in> set (map fst (h a))"
    and w: "w = get_property (h a) key"
    unfolding child_def by blast
  from assms(1) v have "list_all (\<lambda>key. nested_within n h (get_property (h a) key)) (map fst (h a))"
    by simp
  then have "\<forall>key \<in> set (map fst (h a)). nested_within n h (get_property (h a) key)"
    by (simp only: list_all_iff)
  with key w show ?thesis by blast
qed

lemma nested_reach: "rtranclp (child h) v w \<Longrightarrow> nested_within n h v \<Longrightarrow> nested_within n h w"
proof (induction rule: rtranclp_induct)
  case base
  then show ?case .
next
  case (step x y)
  from step.IH[OF step.prems] obtain m where n: "n = Suc m" by (cases n) auto
  with step.IH[OF step.prems] step.hyps(2) have "nested_within m h y"
    using nested_child[of m h x y] by blast
  moreover have "m \<le> n" using n by simp
  ultimately show ?case by (rule nested_mono)
qed

lemma nested_descend:
  assumes "tranclp (child h) v w" "nested_within (Suc n) h v"
  shows "nested_within n h w"
proof -
  from assms(1) obtain x where "child h v x" "rtranclp (child h) x w"
    by (auto dest: tranclpD)
  with assms(2) show ?thesis using nested_child[of n h v x] nested_reach[of h x w n] by blast
qed

lemma loop_not_nested: "tranclp (child h) w w \<Longrightarrow> \<not> nested_within n h w"
proof (induction n)
  case 0
  show ?case by simp
next
  case (Suc n)
  then show ?case by (auto dest: nested_descend)
qed

lemma cyclic_not_nested: "cyclic h v \<Longrightarrow> \<not> nested_within n h v"
  unfolding cyclic_def by (auto dest: nested_reach loop_not_nested)

text \<open>The object that is its own property, and two objects that hold each other.\<close>

lemma self_heap_cyclic: "cyclic self_heap (VRef 0)"
proof -
  have "child self_heap (VRef 0) (VRef 0)"
    unfolding child_def by (rule exI[of _ 0], rule exI[of _ "js ''self''"]) (simp add: self_heap_def)
  then have "tranclp (child self_heap) (VRef 0) (VRef 0)" by (rule tranclp.r_into_trancl)
  then show ?thesis unfolding cyclic_def by blast
qed

lemma self_heap_overflow: "sanitize_heap stack (VRef 0) self_heap = Inl (RangeError, self_heap)"
proof (induction stack)
  case 0
  show ?case by simp
next
  case (Suc stack)
  have keys: "map fst (self_heap 0) = [js ''self'']" by (simp add: self_heap_def)
  have own: "get_property (self_heap 0) (js ''self'') = VRef 0" by (simp add: self_heap_def)
  show ?case using Suc keys own by simp
qed

lemma sanitize_heap_example:
  "sanitize_heap 3 (VRef 0) nested_heap =
     Inr (VRef 0, nested_heap
       (0 := [(js ''name'', VStr (js ''bhi/b'')), (js ''tags'', VRef 1)],
        1 := [(js ''0'', VStr (js ''script'')), (js ''1'', VNum (Finite 5)), (js ''2'', VNull)]))"
proof -
  have "sanitize_heap (Suc (Suc (Suc 0))) (VRef 0) nested_heap =
     Inr (VRef 0, nested_heap
       (0 := [(js ''name'', VStr (js ''bhi/b'')), (js ''tags'', VRef 1)],
        1 := [(js ''0'', VStr (js ''script'')), (js ''1'', VNum (Finite 5)), (js ''2'', VNull)]))"
    by (simp add: nested_heap_def eval_str fun_eq_iff)
  then show ?thesis unfolding numeral_3_eq_3 .
qed

lemma sanitize_heap_deep_example:
  "sanitize_heap 2 (VRef 0) nested_heap =
     Inl (RangeError, nested_heap
       (0 := [(js ''name'', VStr (js ''bhi/b'')), (js ''tags'', VRef 1)]))"
proof -
  have "sanitize_heap (Suc (Suc 0)) (VRef 0) nested_heap =
     Inl (RangeError, nested_heap
       (0 := [(js ''name'', VStr (js ''bhi/b'')), (js ''tags'', VRef 1)]))"
    by (simp add: nested_heap_def eval_str fun_eq_iff)
  then show ?thesis unfolding numeral_2_eq_2 .
qed

lemma ring_heap_cyclic: "cyclic ring_heap (VRef 0)"
proof -
  have "child ring_heap (VRef 0) (VRef 1)"
    unfolding child_def by (rule exI[of _ 0], rule exI[of _ "js ''next''"]) (simp add: ring_heap_def)
  moreover have "child ring_heap (VRef 1) (VRef 0)"
    unfolding child_def by (rule exI[of _ 1], rule exI[of _ "js ''back''"]) (simp add: ring_heap_def)
  ultimately have "tranclp (child ring_heap) (VRef 0) (VRef 0)"
    by (blast intro: tranclp.r_into_trancl tranclp.trancl_into_trancl)
  then show ?thesis unfolding cyclic_def by blast
qed

lemma ring_heap_overflows: "\<exists>h'. sanitize_heap stack (VRef 0) ring_heap = Inl (RangeError, h')"
  by (rule sanitize_heap_throws) (rule cyclic_not_nested[OF ring_heap_cyclic])

text \<open>
  C4, as stated, at the object whose property \<open>self\<close> is the object itself, with room
  for 10000 calls on the stack: the call \<open>sanitize(obj)\<close> ends with no cleaned value and
  with no cycle error. It ends because the recursion has used up the call stack, in the
  engine's \<open>RangeError\<close>, as it does at every capacity (\<open>self_heap_overflow\<close>).
\<close>

theorem sanitize_cycle_counterexample:
  "cyclic self_heap (VRef 0) \<and>
   sanitize_heap 10000 (VRef 0) self_heap = Inl (RangeError, self_heap)"
  by (rule conjI[OF self_heap_cyclic self_heap_overflow])

text \<open>
  C4, amended. The sanitiser has no cycle detection, and each nested call holds a frame of
  the call stack. For every store, value and stack capacity: if the object graph of the
  value nests within the capacity, the call returns what \<open>sanitize\<close> returns for the
  value, and no string reached from it, through shared objects too, holds \<open><\<close> or
  \<open>>\<close>; if it does not, the call ends in the stack overflow \<open>RangeError\<close>, which is no
  cycle error. A value from which a reference cycle is reachable nests within no capacity,
  so it overflows every stack; an acyclic value nested deeper than the capacity overflows
  too.
\<close>

theorem sanitize_heap_outcome:
  "(nested_within stack h v \<longrightarrow>
      (\<exists>v' h'. sanitize_heap stack v h = Inr (v', h') \<and> sanitized_value v v' \<and>
         clean_within stack h' v')) \<and>
   (\<not> nested_within stack h v \<longrightarrow> (\<exists>h'. sanitize_heap stack v h = Inl (RangeError, h'))) \<and>
   (cyclic h v \<longrightarrow> \<not> nested_within stack h v)"
  using sanitize_heap_returns[of stack h v] sanitize_heap_throws[of stack h v]
    cyclic_not_nested[of h v stack]
  by blast

theorem sanitize_heap_outcome_witness:
  "nested_within 3 nested_heap (VRef 0) \<and>
   (\<exists>v' h'. sanitize_heap 3 (VRef 0) nested_heap = Inr (v', h') \<and> clean_within 3 h' v') \<and>
   \<not> nested_within 2 nested_heap (VRef 0) \<and>
   (\<exists>h'. sanitize_heap 2 (VRef 0) nested_heap = Inl (RangeError, h')) \<and>
   cyclic self_heap (VRef 0) \<and> \<not> nested_within 7 self_heap (VRef 0)"
proof -
  have "nested_within (Suc (Suc (Suc 0))) nested_heap (VRef 0)"
    by (simp add: nested_heap_def js_def)
  then have fits: "nested_within 3 nested_heap (VRef 0)"
    unfolding numeral_3_eq_3 .
  have "\<not> nested_within (Suc (Suc 0)) nested_heap (VRef 0)"
    by (simp add: nested_heap_def js_def)
  then have deep: "\<not> nested_within 2 nested_heap (VRef 0)"
    unfolding numeral_2_eq_2 .
  from sanitize_heap_outcome[of 3 nested_heap "VRef 0"] fits
  have r: "\<exists>v' h'. sanitize_heap 3 (VRef 0) nested_heap = Inr (v', h') \<and> clean_within 3 h' v'"
    by blast
  from sanitize_heap_outcome[of 2 nested_heap "VRef 0"] deep
  have t: "\<exists>h'. sanitize_heap 2 (VRef 0) nested_heap = Inl (RangeError, h')" by blast
  from sanitize_heap_outcome[of 7 self_heap "VRef 0"] self_heap_cyclic
  have c: "\<not> nested_within 7 self_heap (VRef 0)" by blast
  from fits r deep t self_heap_cyclic c show ?thesis by blast
qed

section \<open>The sanitiser in place and the sanitiser on trees\<close>

text \<open>The index keys of an array are pairwise distinct.\<close>

declare index_key.simps [simp del]

lemma index_key_nonempty: "index_key i \<noteq> []"
  by (subst index_key.simps) simp

lemma digit_char_inj: "a < 10 \<Longrightarrow> b < 10 \<Longrightarrow> digit_char a = digit_char b \<Longrightarrow> a = b"
  by (simp add: digit_char_def word_of_nat_eq_iff take_bit_nat_eq_self)

lemma index_key_inj: "index_key i = index_key j \<Longrightarrow> i = j"
proof (induction i arbitrary: j rule: index_key.induct)
  case (1 i)
  show ?case
  proof (cases "i < 10")
    case True
    then have i: "index_key i = [digit_char i]" by (subst index_key.simps) simp
    show ?thesis
    proof (cases "j < 10")
      case jt: True
      then have "index_key j = [digit_char j]" by (subst index_key.simps) simp
      with i "1.prems" True jt show ?thesis by (auto dest: digit_char_inj)
    next
      case False
      then have "index_key j = index_key (j div 10) @ [digit_char (j mod 10)]"
        by (subst index_key.simps) simp
      with i "1.prems" show ?thesis by (simp add: index_key_nonempty)
    qed
  next
    case False
    then have i: "index_key i = index_key (i div 10) @ [digit_char (i mod 10)]"
      by (subst index_key.simps) simp
    show ?thesis
    proof (cases "j < 10")
      case True
      then have "index_key j = [digit_char j]" by (subst index_key.simps) simp
      with i "1.prems" show ?thesis
        by (metis append_is_Nil_conv butlast.simps(2) butlast_snoc index_key_nonempty)
    next
      case jf: False
      then have "index_key j = index_key (j div 10) @ [digit_char (j mod 10)]"
        by (subst index_key.simps) simp
      with i "1.prems" have k: "index_key (i div 10) = index_key (j div 10)"
        and d: "digit_char (i mod 10) = digit_char (j mod 10)" by auto
      from "1.IH"[OF False k] have "i div 10 = j div 10" .
      moreover have "i mod 10 = j mod 10" by (rule digit_char_inj[OF _ _ d]) simp_all
      ultimately show ?thesis by (metis div_mult_mod_eq)
    qed
  qed
qed

lemma distinct_index_keys: "distinct (map index_key [0..<k])"
  by (simp add: distinct_map inj_on_def index_key_inj)

text \<open>Every layout is regular.\<close>

lemma override_empty: "override h r n n = h"
  by (rule ext) (auto simp: override_def)

lemma regularD:
  assumes "regular t" "alloc t n h = (v, n', h1)"
  shows "n \<le> n'" "alloc t n h' = (v, n', override h' h1 n n')"
  using assms unfolding regular_def by blast+

lemma regular_listD:
  assumes "regular_list ts" "alloc_list ts n h = (vs, n', h1)"
  shows "n \<le> n'" "length vs = length ts" "alloc_list ts n h' = (vs, n', override h' h1 n n')"
  using assms unfolding regular_list_def by blast+

lemma regular_list_Nil: "regular_list []"
  by (simp add: regular_list_def override_empty)

lemma regular_list_Cons:
  assumes t: "regular t" and ts: "regular_list ts"
  shows "regular_list (t # ts)"
  unfolding regular_list_def
proof (intro allI impI)
  fix n h h' ws n' hr
  assume c: "alloc_list (t # ts) n h = (ws, n', hr)"
  obtain v n1 h1 where a: "alloc t n h = (v, n1, h1)" by (cases "alloc t n h") auto
  obtain vs n2 h2 where b: "alloc_list ts n1 h1 = (vs, n2, h2)"
    by (cases "alloc_list ts n1 h1") auto
  from c a b have ws: "ws = v # vs" "n' = n2" "hr = h2" by simp_all
  from regularD[OF t a] have n1: "n \<le> n1"
    and a': "alloc t n h' = (v, n1, override h' h1 n n1)" by simp_all
  from regular_listD[OF ts b] have n2: "n1 \<le> n2" and len: "length vs = length ts"
    and b': "alloc_list ts n1 (override h' h1 n n1) = (vs, n2, override (override h' h1 n n1) h2 n1 n2)"
    and b0: "alloc_list ts n1 h1 = (vs, n2, override h1 h2 n1 n2)" by simp_all
  from b b0 have h2: "h2 = override h1 h2 n1 n2" by simp
  have "override (override h' h1 n n1) h2 n1 n2 = override h' h2 n n2"
  proof
    fix a
    show "override (override h' h1 n n1) h2 n1 n2 a = override h' h2 n n2 a"
      using n1 n2 fun_cong[OF h2, of a] by (auto simp: override_def split: if_splits)
  qed
  with a' b' n1 n2 len ws
  show "n \<le> n' \<and> length ws = length (t # ts) \<and>
      alloc_list (t # ts) n h' = (ws, n', override h' hr n n')"
    by simp
qed

lemma regular_list_all: "(\<And>t. t \<in> set ts \<Longrightarrow> regular t) \<Longrightarrow> regular_list ts"
  by (induction ts) (auto intro: regular_list_Nil regular_list_Cons)

lemma regular_node:
  assumes ts: "regular_list ts"
    and eq: "\<And>n h. alloc t n h = (case alloc_list ts (Suc n) h of
        (vs, n', h') \<Rightarrow> (VRef n, n', h'(n := zip ks vs)))"
  shows "regular t"
  unfolding regular_def
proof (intro allI impI)
  fix n h h' v n' hr
  assume c: "alloc t n h = (v, n', hr)"
  obtain vs n2 h2 where b: "alloc_list ts (Suc n) h = (vs, n2, h2)"
    by (cases "alloc_list ts (Suc n) h") auto
  from c b have v: "v = VRef n" "n' = n2" "hr = h2(n := zip ks vs)" by (simp_all add: eq)
  from regular_listD[OF ts b] have n2: "Suc n \<le> n2"
    and b': "alloc_list ts (Suc n) h' = (vs, n2, override h' h2 (Suc n) n2)" by simp_all
  have "(override h' h2 (Suc n) n2)(n := zip ks vs) = override h' (h2(n := zip ks vs)) n n2"
    using n2 by (auto simp: override_def fun_eq_iff)
  with b' n2 v show "n \<le> n' \<and> alloc t n h' = (v, n', override h' hr n n')"
    by (simp add: eq)
qed

lemma regular_all: "regular t"
proof (induction t)
  case (JArr xs)
  then have "regular_list xs" by (intro regular_list_all) auto
  then show ?case by (rule regular_node) simp
next
  case (JObj ps)
  have "regular_list (map snd ps)"
  proof (rule regular_list_all)
    fix t assume "t \<in> set (map snd ps)"
    then obtain key where "(key, t) \<in> set ps" by auto
    then show "regular t" using JObj by (auto simp: snds.simps)
  qed
  then show ?case by (rule regular_node) simp
qed (simp_all add: regular_def override_empty)

lemma regular_list_every: "regular_list ts"
  by (rule regular_list_all) (rule regular_all)

text \<open>
  The loop over the keys of a laid-out object: the properties already visited hold the
  sanitised values, the children still to visit are laid out untouched behind them.
\<close>

lemma refinesD:
  assumes "refines t" "height t \<le> stack"
    "alloc t n h = (v, n', h1)" "alloc (sanitize t) n h = (v', n'', h2)"
    "\<And>a. n \<le> a \<Longrightarrow> a < n' \<Longrightarrow> g a = h1 a"
  shows "n'' = n'" "sanitize_heap stack v g = Inr (v', override g h2 n n')"
  using assms unfolding refines_def by blast+

lemma get_property_append:
  "key \<notin> fst ` set xs \<Longrightarrow> get_property (xs @ ys) key = get_property ys key"
  by (induction xs) auto

lemma set_property_append:
  "key \<notin> fst ` set xs \<Longrightarrow>
     set_property (xs @ (key, v) # ys) key w = xs @ (key, w) # ys"
  by (induction xs) auto

lemma loop_refines:
  assumes "\<And>t. t \<in> set ts \<Longrightarrow> refines t \<and> height t \<le> stack"
    and "alloc_list ts m h = (vs, n', h1)"
    and "alloc_list (map sanitize ts) m h = (vs', n'', h2)"
    and "length ks = length ts" "distinct ks" "set ks \<inter> fst ` set pre = {}" "p < m"
    and "\<And>a. m \<le> a \<Longrightarrow> a < n' \<Longrightarrow> g a = h1 a"
    and "g p = pre @ zip ks vs"
  shows "n'' = n' \<and>
     for_in stack p ks g = Inr (VRef p, (override g h2 m n')(p := pre @ zip ks vs'))"
  using assms
proof (induction ts arbitrary: ks m h vs n' h1 vs' n'' h2 pre g)
  case Nil
  then have "g p = pre" by simp
  then have "g(p := pre) = g" by auto
  with Nil show ?case by (simp add: override_empty)
next
  case (Cons t ts)
  from Cons.prems(4) obtain k ks' where ks: "ks = k # ks'" and len: "length ks' = length ts"
    by (cases ks) auto
  obtain v m1 ha where a: "alloc t m h = (v, m1, ha)" by (cases "alloc t m h") auto
  obtain vs0 na hb where b: "alloc_list ts m1 ha = (vs0, na, hb)"
    by (cases "alloc_list ts m1 ha") auto
  from Cons.prems(2) a b have vs: "vs = v # vs0" "na = n'" "hb = h1" by simp_all
  obtain v' m1' ha' where a': "alloc (sanitize t) m h = (v', m1', ha')"
    by (cases "alloc (sanitize t) m h") auto
  obtain vs0' nb hc where b': "alloc_list (map sanitize ts) m1' ha' = (vs0', nb, hc)"
    by (cases "alloc_list (map sanitize ts) m1' ha'") auto
  from Cons.prems(3) a' b' have vs': "vs' = v' # vs0'" "nb = n''" "hc = h2" by simp_all
  have m1: "m \<le> m1" using regularD(1)[OF regular_all a] .
  from b vs have b1: "alloc_list ts m1 ha = (vs0, n', h1)" by simp
  have n': "m1 \<le> n'" and lenvs: "length vs0 = length ts"
    and h1: "h1 = override ha h1 m1 n'"
    using regular_listD(1,2)[OF regular_list_every b1]
      regular_listD(3)[OF regular_list_every b1, of ha] b1 by simp_all
  have t: "refines t" and ht: "height t \<le> stack" using Cons.prems(1) by simp_all
  have agree: "g a = ha a" if "m \<le> a" "a < m1" for a
  proof -
    have "g a = h1 a" using that n' Cons.prems(8)[of a] by simp
    also have "h1 a = ha a" using fun_cong[OF h1, of a] that by (simp add: override_def)
    finally show ?thesis .
  qed
  from refinesD[OF t ht a a' agree] have m1': "m1' = m1"
    and run1: "sanitize_heap stack v g = Inr (v', override g ha' m m1)" by simp_all
  have knot: "k \<notin> fst ` set pre" using Cons.prems(6) ks by auto
  have gp: "g p = pre @ (k, v) # zip ks' vs0" using Cons.prems(9) ks vs by simp
  then have getk: "get_property (g p) k = v" using knot by (simp add: get_property_append)
  define g1 where "g1 = override g ha' m m1"
  have g1p: "g1 p = g p" using Cons.prems(7) by (simp add: g1_def override_def)
  define g2 where "g2 = g1(p := set_property (g1 p) k v')"
  have g2p: "g2 p = (pre @ [(k, v')]) @ zip ks' vs0"
    using g1p gp knot by (simp add: g2_def set_property_append)
  have step: "for_in stack p ks g = for_in stack p ks' g2"
    using run1 getk by (simp add: ks g1_def g2_def del: fun_upd_apply)
  from b' vs' m1' have b2: "alloc_list (map sanitize ts) m1 ha' = (vs0', n'', h2)" by simp
  have h2: "h2 = override ha' h2 m1 n''"
    and b3: "alloc_list (map sanitize ts) m1 ha = (vs0', n'', override ha h2 m1 n'')"
    using regular_listD(3)[OF regular_list_every b2, of ha'] regular_listD(3)[OF regular_list_every b2, of ha] b2
    by simp_all
  have disj: "set ks' \<inter> fst ` set (pre @ [(k, v')]) = {}"
    using Cons.prems(5,6) ks by auto
  have agree2: "g2 a = h1 a" if "m1 \<le> a" "a < n'" for a
  proof -
    have "a \<noteq> p" using that Cons.prems(7) m1 by simp
    then have "g2 a = g1 a" by (simp add: g2_def)
    also have "\<dots> = g a" using that by (simp add: g1_def override_def)
    also have "\<dots> = h1 a" using that m1 Cons.prems(8)[of a] by simp
    finally show ?thesis .
  qed
  have pm1: "p < m1" using Cons.prems(7) m1 by simp
  have ih: "n'' = n' \<and> for_in stack p ks' g2 =
      Inr (VRef p, (override g2 (override ha h2 m1 n'') m1 n')(p := (pre @ [(k, v')]) @ zip ks' vs0'))"
  proof (rule Cons.IH[OF _ b1 b3 len _ disj pm1 agree2 g2p])
    show "\<And>t. t \<in> set ts \<Longrightarrow> refines t \<and> height t \<le> stack"
      using Cons.prems(1) by simp
    show "distinct ks'" using Cons.prems(5) ks by simp
  qed
  then have nn: "n'' = n'"
    and run2: "for_in stack p ks' g2 =
      Inr (VRef p, (override g2 (override ha h2 m1 n'') m1 n')(p := (pre @ [(k, v')]) @ zip ks' vs0'))"
    by blast+
  have heq: "(override g2 (override ha h2 m1 n'') m1 n')(p := (pre @ [(k, v')]) @ zip ks' vs0') =
        (override g h2 m n')(p := pre @ zip ks vs')"
  proof
    fix a
    show "((override g2 (override ha h2 m1 n'') m1 n')(p := (pre @ [(k, v')]) @ zip ks' vs0')) a =
        ((override g h2 m n')(p := pre @ zip ks vs')) a"
    proof (cases "a = p")
      case True
      then show ?thesis by (simp add: ks vs')
    next
      case False
      show ?thesis
      proof (cases "m1 \<le> a \<and> a < n'")
        case True
        then show ?thesis using False m1 nn by (simp add: override_def)
      next
        case out: False
        show ?thesis
        proof (cases "m \<le> a \<and> a < m1")
          case True
          have "h2 a = ha' a" using fun_cong[OF h2, of a] True by (simp add: override_def)
          then show ?thesis using False out True n'
            by (simp add: override_def g2_def g1_def)
        next
          case False2: False
          then show ?thesis using False out
            by (auto simp add: override_def g2_def g1_def)
        qed
      qed
    qed
  qed
  have "for_in stack p ks g = Inr (VRef p,
      (override g2 (override ha h2 m1 n'') m1 n')(p := (pre @ [(k, v')]) @ zip ks' vs0'))"
    using step run2 by (simp only:)
  then have "for_in stack p ks g = Inr (VRef p, (override g h2 m n')(p := pre @ zip ks vs'))"
    by (simp only: heq)
  with nn show ?case by blast
qed

lemma height_child: "t \<in> set ts \<Longrightarrow> height t \<le> foldr max (map height ts) 0"
  by (induction ts) auto

lemma node_refines:
  assumes kids: "\<And>t. t \<in> set ts \<Longrightarrow> refines t"
    and eq: "\<And>n h. alloc t n h = (case alloc_list ts (Suc n) h of
        (vs, n', h') \<Rightarrow> (VRef n, n', h'(n := zip ks vs)))"
    and eq': "\<And>n h. alloc (sanitize t) n h = (case alloc_list (map sanitize ts) (Suc n) h of
        (vs, n', h') \<Rightarrow> (VRef n, n', h'(n := zip ks vs)))"
    and len: "length ks = length ts" and dist: "distinct ks"
    and ht: "height t = Suc (foldr max (map height ts) 0)"
  shows "refines t"
  unfolding refines_def
proof (intro allI impI)
  fix stack n h v n' h1 v' n'' h2 g
  assume room: "height t \<le> stack"
    and a: "alloc t n h = (v, n', h1)" and a': "alloc (sanitize t) n h = (v', n'', h2)"
    and agree: "\<forall>a. n \<le> a \<and> a < n' \<longrightarrow> g a = h1 a"
  from room ht obtain below where stack: "stack = Suc below"
    and low: "foldr max (map height ts) 0 \<le> below" by (cases stack) auto
  have kids': "refines c \<and> height c \<le> below" if "c \<in> set ts" for c
    using kids[OF that] height_child[OF that] low by simp
  obtain vs na hb where b: "alloc_list ts (Suc n) h = (vs, na, hb)"
    by (cases "alloc_list ts (Suc n) h") auto
  obtain vs' nb hc where b': "alloc_list (map sanitize ts) (Suc n) h = (vs', nb, hc)"
    by (cases "alloc_list (map sanitize ts) (Suc n) h") auto
  from a b have v: "v = VRef n" "na = n'" "h1 = hb(n := zip ks vs)" by (simp_all add: eq)
  from a' b' have v': "v' = VRef n" "nb = n''" "h2 = hc(n := zip ks vs')" by (simp_all add: eq')
  have n': "Suc n \<le> n'" and lvs: "length vs = length ts"
    using regular_listD(1,2)[OF regular_list_every b] v by simp_all
  have gn: "g n = [] @ zip ks vs" using agree n' v by simp
  have keys: "map fst (g n) = ks" using gn lvs len by simp
  have ag: "g a = hb a" if "Suc n \<le> a" "a < n'" for a
    using agree that v by simp
  from b v have b1: "alloc_list ts (Suc n) h = (vs, n', hb)" by simp
  from b' v' have b2: "alloc_list (map sanitize ts) (Suc n) h = (vs', n'', hc)" by simp
  have "n'' = n' \<and> for_in below n ks g =
      Inr (VRef n, (override g hc (Suc n) n')(n := [] @ zip ks vs'))"
    by (rule loop_refines[OF kids' b1 b2 len dist _ _ ag gn]) simp_all
  then have nn: "n'' = n'"
    and run1: "for_in below n ks g = Inr (VRef n, (override g hc (Suc n) n')(n := zip ks vs'))"
    by simp_all
  have heq: "(override g hc (Suc n) n')(n := zip ks vs') = override g h2 n n'"
    using n' v' by (auto simp: override_def fun_eq_iff)
  have "sanitize_heap stack v g = for_in below n ks g" using v keys stack by simp
  also have "\<dots> = Inr (v', override g h2 n n')" using run1 heq v' by (simp only:)
  finally show "n'' = n' \<and> sanitize_heap stack v g = Inr (v', override g h2 n n')"
    using nn by blast
qed

lemma scalar_refines:
  assumes "\<And>n h. alloc t n h = (v, n, h)" "\<And>n h. alloc (sanitize t) n h = (v', n, h)"
    and "\<And>stack g. sanitize_heap (Suc stack) v g = Inr (v', g)" and "height t = Suc 0"
  shows "refines t"
  unfolding refines_def
proof (intro allI impI)
  fix stack n h w n' h1 w' n'' h2 g
  assume room: "height t \<le> stack"
    and a: "alloc t n h = (w, n', h1)" and a': "alloc (sanitize t) n h = (w', n'', h2)"
  from room assms(4) obtain below where "stack = Suc below" by (cases stack) auto
  with a a' assms(1,2,3) show "n'' = n' \<and> sanitize_heap stack w g = Inr (w', override g h2 n n')"
    by (simp add: override_empty)
qed

lemma refines_all: "wf_json t \<Longrightarrow> refines t"
proof (induction t)
  case (JArr xs)
  show ?case
  proof (rule node_refines[where ts = xs and ks = "map index_key [0..<length xs]"])
    show "refines t" if "t \<in> set xs" for t
      using JArr that by (auto simp: list_all_iff)
  qed (simp_all add: distinct_index_keys)
next
  case (JObj ps)
  show ?case
  proof (rule node_refines[where ts = "map snd ps" and ks = "map fst ps"])
    show "refines t" if "t \<in> set (map snd ps)" for t
    proof -
      from that obtain key where "(key, t) \<in> set ps" by auto
      then show ?thesis using JObj by (auto simp: list_all_iff snds.simps)
    qed
    show "alloc (sanitize (JObj ps)) n h = (case alloc_list (map sanitize (map snd ps)) (Suc n) h of
        (vs, n', h') \<Rightarrow> (VRef n, n', h'(n := zip (map fst ps) vs)))" for n h
      by (simp add: comp_def case_prod_unfold)
    show "height (JObj ps) = Suc (foldr max (map height (map snd ps)) 0)"
      by (simp add: comp_def case_prod_unfold)
  qed (use JObj.prems in simp_all)
next
  case JUndefined
  show ?case by (rule scalar_refines[where v = VUndefined and v' = VUndefined]) simp_all
next
  case JNull
  show ?case by (rule scalar_refines[where v = VNull and v' = VNull]) simp_all
next
  case (JBool b)
  show ?case by (rule scalar_refines[where v = "VBool b" and v' = "VBool b"]) simp_all
next
  case (JNum x)
  show ?case by (rule scalar_refines[where v = "VNum x" and v' = "VNum x"]) simp_all
next
  case (JStr s)
  show ?case
    by (rule scalar_refines[where v = "VStr s" and v' = "VStr (replace_angle (trim s))"])
      simp_all
qed

text \<open>
  Laying a well-formed payload tree out in the store and running the sanitiser that assigns
  in place, with room on the stack for the height of the tree, returns the value of, and
  leaves the store of, the tree sanitised by \<open>sanitize\<close>.
\<close>

theorem in_place_refines_tree:
  assumes "wf_json t" "height t \<le> stack"
  shows "sanitize_heap stack (fst (alloc t n h)) (snd (snd (alloc t n h))) =
     Inr (fst (alloc (sanitize t) n h), snd (snd (alloc (sanitize t) n h)))"
proof -
  obtain v n' h1 where a: "alloc t n h = (v, n', h1)" by (cases "alloc t n h") auto
  obtain v' n'' h2 where a': "alloc (sanitize t) n h = (v', n'', h2)"
    by (cases "alloc (sanitize t) n h") auto
  from refinesD[OF refines_all[OF assms(1)] assms(2) a a', of h1]
  have nn: "n'' = n'" and r: "sanitize_heap stack v h1 = Inr (v', override h1 h2 n n')"
    by simp_all
  have f1: "h1 = override h h1 n n'" using regularD(2)[OF regular_all a, of h] a by simp
  have f2: "h2 = override h h2 n n'" using regularD(2)[OF regular_all a', of h] a' nn by simp
  have "override h1 h2 n n' = h2"
  proof
    fix x show "override h1 h2 n n' x = h2 x"
      using fun_cong[OF f1, of x] fun_cong[OF f2, of x] by (simp add: override_def split: if_splits)
  qed
  with r a a' show ?thesis by simp
qed

lemma alloc_nested_example:
  "alloc nested_payload 0 (\<lambda>a. []) = (VRef 0, 2, nested_heap)"
  by (simp add: nested_payload_def nested_heap_def digit_char_def index_key.simps js_def
      fun_eq_iff)

lemma height_nested_example: "height nested_payload = 3"
  by (simp add: nested_payload_def)

text \<open>
  The layout of \<open>nested_payload\<close> is \<open>nested_heap\<close>, of height 3: with room for three
  calls the sanitiser returns (\<open>sanitize_heap_example\<close>), with room for two it overflows
  the stack (\<open>sanitize_heap_deep_example\<close>), though the payload is a tree.
\<close>

end
